theory Spec2Isabelle
  imports Main "HOL-Library.Multiset" "HOL-Library.Monad_Syntax"
begin

section \<open>Data model of \<open>app.py\<close>\<close>

text \<open>
  Every timestamp the program handles is a timezone-aware \<open>datetime\<close>.  Such a value is
  an instant on the time line together with the zone it is displayed in.  The instant is
  counted in microseconds from 1970-01-01T00:00:00Z, microseconds being the resolution
  of \<open>datetime\<close>.  The display zone \<open>Asia/Kolkata\<close> is taken at its offset of +05:30, in
  force since 1945.
\<close>

datatype timezone = UTC | INDIA_TZ

definition utcoffset :: "timezone \<Rightarrow> int" where
  "utcoffset z = (case z of UTC \<Rightarrow> 0 | INDIA_TZ \<Rightarrow> 19800000000)"

record datetime =
  instant :: int
  tzinfo :: timezone

text \<open>
  A \<open>datetime\<close> exists only when its wall-clock reading lies between
  \<open>datetime.min\<close>, 0001-01-01T00:00:00, and \<open>datetime.max\<close>, 9999-12-31T23:59:59.999999.
  An operation whose result would lie outside raises \<open>OverflowError\<close>.
\<close>

definition wall_clock :: "datetime \<Rightarrow> int" where
  "wall_clock d = instant d + utcoffset (tzinfo d)"

definition datetime_min :: int where
  "datetime_min = - 62135596800000000"

definition datetime_max :: int where
  "datetime_max = 253402300799999999"

definition representable :: "int \<Rightarrow> bool" where
  "representable w = (datetime_min \<le> w \<and> w \<le> datetime_max)"

text \<open>
  \<open>d.astimezone(z)\<close> keeps the instant and replaces the zone; \<open>None\<close> stands for the
  \<open>OverflowError\<close> raised when the reading in the new zone is out of range.
\<close>

definition astimezone :: "datetime \<Rightarrow> timezone \<Rightarrow> datetime option" where
  "astimezone d z =
     (if representable (instant d + utcoffset z) then Some (d\<lparr>tzinfo := z\<rparr>) else None)"

text \<open>\<open>d - timedelta(hours=h)\<close>, with \<open>None\<close> for \<open>OverflowError\<close>.\<close>

definition minus_hours :: "datetime \<Rightarrow> int \<Rightarrow> datetime option" where
  "minus_hours d h =
     (if representable (wall_clock d - h * 3600000000)
      then Some (d\<lparr>instant := instant d - h * 3600000000\<rparr>) else None)"

text \<open>
  \<open>a >= b\<close> on aware datetimes.  Python compares the instants; for two values of one
  zone it compares the wall-clock readings, which is the same order.
\<close>

definition dt_ge :: "datetime \<Rightarrow> datetime \<Rightarrow> bool" where
  "dt_ge a b = (instant b \<le> instant a)"

text \<open>
  An item is the dictionary built by \<open>fetch_feed\<close> (lines 136-144): its seven keys are
  always present; \<open>dt_utc\<close> and \<open>image\<close> may hold \<open>None\<close>.  The eighth key, \<open>dt_ist\<close>,
  is written by \<open>filter_last_window\<close>; the field is \<open>None\<close> while the key is absent.
\<close>

record item =
  source :: string
  feed :: string
  title :: string
  link :: string
  summary :: string
  dt_utc :: "datetime option"
  image_url :: "string option"
  dt_ist :: "datetime option"

text \<open>The module constants \<open>FEEDS\<close> (a dictionary, in insertion order) and \<open>HOURS_WINDOW\<close>.\<close>

definition FEEDS :: "(string \<times> string) list" where
  "FEEDS =
    [(''Moneycontrol'', ''http://www.moneycontrol.com/rss/latestnews.xml''),
     (''BS Hindi - Markets News'', ''https://hindi.business-standard.com/rss/markets/news.xml''),
     (''BS Hindi - Share Market'', ''https://hindi.business-standard.com/rss/markets/share-market.xml''),
     (''The Hindu - Markets'', ''https://www.thehindu.com/business/markets/feeder/default.rss''),
     (''Google News - India Markets'',
      ''https://news.google.com/rss/search?q=india+stock+market+OR+nifty+OR+sensex&hl=en-IN&gl=IN&ceid=IN:en'')]"

definition HOURS_WINDOW :: int where
  "HOURS_WINDOW = 24"

section \<open>The selector \<open>filter_last_window\<close>\<close>

text \<open>
  Lines 175-180: the loop that writes \<open>dt_ist\<close> into every item of the pool.  The items
  are dictionaries shared with the caller, so the loop changes the caller's pool; the
  model returns the pool as the loop leaves it, and \<open>None\<close> when line 177 raises.
\<close>

definition stamp :: "datetime \<Rightarrow> item \<Rightarrow> item option" where
  "stamp now_ist it =
     (case dt_utc it of
        Some d \<Rightarrow>
          (case astimezone d INDIA_TZ of
             None \<Rightarrow> None
           | Some d' \<Rightarrow> Some (it\<lparr>dt_ist := Some d'\<rparr>))
      | None \<Rightarrow> Some (it\<lparr>dt_ist := Some now_ist\<rparr>))"

fun stamp_items :: "datetime \<Rightarrow> item list \<Rightarrow> item list option" where
  "stamp_items now_ist [] = Some []"
| "stamp_items now_ist (it # its) =
     (case stamp now_ist it of
        None \<Rightarrow> None
      | Some it' \<Rightarrow>
          (case stamp_items now_ist its of
             None \<Rightarrow> None
           | Some its' \<Rightarrow> Some (it' # its')))"

text \<open>
  Line 183: \<open>[it for it in items if it["dt_ist"] >= cutoff]\<close>.  Reading the key
  \<open>dt_ist\<close> of an item that has none raises \<open>KeyError\<close>; the model returns \<open>None\<close> then.
\<close>

fun select_within :: "datetime \<Rightarrow> item list \<Rightarrow> item list option" where
  "select_within cutoff [] = Some []"
| "select_within cutoff (it # its) =
     (case dt_ist it of
        None \<Rightarrow> None
      | Some d \<Rightarrow>
          (case select_within cutoff its of
             None \<Rightarrow> None
           | Some r \<Rightarrow> Some (if dt_ge d cutoff then it # r else r)))"

text \<open>
  Lines 184, 207 and 220: \<open>sort(key=lambda x: x["dt_ist"], reverse=True)\<close>.  Python
  computes the key of every element first (\<open>KeyError\<close> when one is absent) and then
  sorts stably, elements of equal key keeping their order also under \<open>reverse=True\<close>.
\<close>

definition sort_newest_first :: "item list \<Rightarrow> item list option" where
  "sort_newest_first xs =
     (case those (map dt_ist xs) of
        None \<Rightarrow> None
      | Some ks \<Rightarrow> Some (map snd (sort_key (\<lambda>(k, it). - instant k) (zip ks xs))))"

type_synonym item_key = "string \<times> string"

definition key_of :: "item \<Rightarrow> item_key" where
  "key_of it = (feed it, link it)"

text \<open>
  Lines 209-217: the loop over the candidates of one feed.  Its state is
  \<open>(final_items, seen_keys, already_in)\<close>.
\<close>

fun add_candidates ::
  "int \<Rightarrow> item list \<Rightarrow> item list \<times> item_key set \<times> item list
     \<Rightarrow> item list \<times> item_key set \<times> item list" where
  "add_candidates fallback_limit_per_feed [] st = st"
| "add_candidates fallback_limit_per_feed (cand # rest) (final_items, seen_keys, already_in) =
     (let key = (feed cand, link cand) in
      if key \<in> seen_keys
      then add_candidates fallback_limit_per_feed rest (final_items, seen_keys, already_in)
      else
        (let final_items' = final_items @ [cand];
             seen_keys' = insert key seen_keys;
             already_in' = already_in @ [cand]
         in if fallback_limit_per_feed \<le> int (length already_in')
            then (final_items', seen_keys', already_in')
            else add_candidates fallback_limit_per_feed rest
                   (final_items', seen_keys', already_in')))"

text \<open>Lines 194-217: the body of the loop over the feed names, for one feed name.\<close>

definition process_feed ::
  "int \<Rightarrow> item list \<Rightarrow> string \<Rightarrow> item list \<times> item_key set
     \<Rightarrow> (item list \<times> item_key set) option" where
  "process_feed fallback_limit_per_feed items feed_name st =
     (case st of (final_items, seen_keys) \<Rightarrow>
       (let feed_items = filter (\<lambda>it. feed it = feed_name) items in
        if feed_items = [] then Some (final_items, seen_keys)
        else
          (let already_in = filter (\<lambda>it. feed it = feed_name) final_items in
           if fallback_limit_per_feed \<le> int (length already_in)
           then Some (final_items, seen_keys)
           else
             (case sort_newest_first feed_items of
                None \<Rightarrow> None
              | Some feed_items_sorted \<Rightarrow>
                  (case add_candidates fallback_limit_per_feed feed_items_sorted
                          (final_items, seen_keys, already_in) of
                     (final_items', seen_keys', already_in') \<Rightarrow>
                       Some (final_items', seen_keys'))))))"

text \<open>Line 193: \<open>for feed_name in FEEDS.keys()\<close>.\<close>

fun fallback_feeds ::
  "int \<Rightarrow> item list \<Rightarrow> string list \<Rightarrow> item list \<times> item_key set
     \<Rightarrow> (item list \<times> item_key set) option" where
  "fallback_feeds fallback_limit_per_feed items [] st = Some st"
| "fallback_feeds fallback_limit_per_feed items (feed_name # names) st =
     (case process_feed fallback_limit_per_feed items feed_name st of
        None \<Rightarrow> None
      | Some st' \<Rightarrow> fallback_feeds fallback_limit_per_feed items names st')"

text \<open>
  Lines 222-223: \<open>final_items[:global_limit]\<close> when a limit is given and exceeded.  A
  negative bound of a Python slice counts from the end of the list.
\<close>

definition slice_to :: "'a list \<Rightarrow> int \<Rightarrow> 'a list" where
  "slice_to xs n = (if 0 \<le> n then take (nat n) xs else take (nat (int (length xs) + n)) xs)"

definition trim :: "int option \<Rightarrow> item list \<Rightarrow> item list" where
  "trim global_limit final_items =
     (case global_limit of
        None \<Rightarrow> final_items
      | Some g \<Rightarrow> if g < int (length final_items) then slice_to final_items g else final_items)"

text \<open>
  The function itself (lines 164-235), in two parts.  What Python reads from outside its
  arguments is an argument here: the module constants \<open>FEEDS\<close> and \<open>HOURS_WINDOW\<close>, and
  the clock value \<open>datetime.now(INDIA_TZ)\<close> of line 171.  The result pairs the pool as
  the call leaves it with a list; \<open>None\<close> stands for an exception.

  Lines 171-220: the selection, sorted, before any trimming.
\<close>

definition sorted_selection ::
  "(string \<times> string) list \<Rightarrow> int \<Rightarrow> datetime \<Rightarrow> item list \<Rightarrow> int
     \<Rightarrow> (item list \<times> item list) option" where
  "sorted_selection feeds hours_window now_ist items0 fallback_limit_per_feed =
     do {
       cutoff \<leftarrow> minus_hours now_ist hours_window;
       items \<leftarrow> stamp_items now_ist items0;
       unsorted \<leftarrow> select_within cutoff items;
       within_window \<leftarrow> sort_newest_first unsorted;
       (final_items, seen_keys) \<leftarrow>
         fallback_feeds fallback_limit_per_feed items (map fst feeds)
           (within_window, set (map key_of within_window));
       final_sorted \<leftarrow> sort_newest_first final_items;
       Some (items, final_sorted)
     }"

text \<open>
  Lines 222-235: the trimming and the return.  The counts printed at lines 226-233 do
  not reach the result.
\<close>

definition filter_last_window ::
  "(string \<times> string) list \<Rightarrow> int \<Rightarrow> datetime \<Rightarrow> item list \<Rightarrow> int \<Rightarrow> int option
     \<Rightarrow> (item list \<times> item list) option" where
  "filter_last_window feeds hours_window now_ist items0 fallback_limit_per_feed global_limit =
     do {
       (items, final_sorted) \<leftarrow>
         sorted_selection feeds hours_window now_ist items0 fallback_limit_per_feed;
       Some (items, trim global_limit final_sorted)
     }"

text \<open>Line 544: the call made by the route, with the defaults of line 164.\<close>

definition index_recent :: "datetime \<Rightarrow> item list \<Rightarrow> (item list \<times> item list) option" where
  "index_recent now_ist all_items =
     filter_last_window FEEDS HOURS_WINDOW now_ist all_items 1 (Some 120)"

section \<open>The fetching layer: \<open>fetch_feed\<close> and \<open>fetch_all\<close>\<close>

text \<open>
  The network, the feed parser and the reading of one parsed entry are outside the
  program.  Their outcome is given by an environment: each operation either yields its
  value or raises, \<open>Inl\<close> holding the exception.  Every exception here is an instance of
  \<open>Exception\<close>, which is what the two \<open>except\<close> clauses catch.
\<close>

datatype exn = Exception string

record ('r, 'e, 't) env =
  session_get :: "string \<Rightarrow> exn + 'r"
  raise_for_status :: "'r \<Rightarrow> exn + unit"
  feedparser_parse :: "'r \<Rightarrow> exn + 'e list"
  published_parsed :: "'e \<Rightarrow> 't option"
  updated_parsed :: "'e \<Rightarrow> 't option"
  utc_datetime :: "'t \<Rightarrow> exn + datetime"
  extract_image :: "'e \<Rightarrow> exn + string option"
  get_publisher_name :: "string \<Rightarrow> 'e \<Rightarrow> exn + string"
  entry_title :: "'e \<Rightarrow> string option"
  entry_link :: "'e \<Rightarrow> string option"
  entry_summary :: "'e \<Rightarrow> string option"

text \<open>Lines 112-113, the body of the \<open>try\<close>.\<close>

definition http_fetch :: "('r, 'e, 't) env \<Rightarrow> string \<Rightarrow> exn + 'r" where
  "http_fetch env url =
     (case session_get env url of
        Inl e \<Rightarrow> Inl e
      | Inr resp \<Rightarrow> (case raise_for_status env resp of Inl e \<Rightarrow> Inl e | Inr u \<Rightarrow> Inr resp))"

text \<open>Lines 123-130: the timestamp of an entry, \<open>None\<close> when the feed gives no date.\<close>

definition entry_dt_utc :: "('r, 'e, 't) env \<Rightarrow> 'e \<Rightarrow> exn + datetime option" where
  "entry_dt_utc env entry =
     (let dt_struct = (case published_parsed env entry of
                         Some t \<Rightarrow> Some t
                       | None \<Rightarrow> updated_parsed env entry)
      in case dt_struct of
           Some t \<Rightarrow> (case utc_datetime env t of Inl e \<Rightarrow> Inl e | Inr d \<Rightarrow> Inr (Some d))
         | None \<Rightarrow> Inr None)"

text \<open>Lines 123-145, the body of the loop over the entries.\<close>

definition build_item :: "('r, 'e, 't) env \<Rightarrow> string \<Rightarrow> 'e \<Rightarrow> exn + item" where
  "build_item env source_name entry =
     (case entry_dt_utc env entry of
        Inl e \<Rightarrow> Inl e
      | Inr dt \<Rightarrow>
         (case extract_image env entry of
            Inl e \<Rightarrow> Inl e
          | Inr img \<Rightarrow>
             (case get_publisher_name env source_name entry of
                Inl e \<Rightarrow> Inl e
              | Inr publisher \<Rightarrow>
                  Inr \<lparr>source = publisher,
                       feed = source_name,
                       title = (case entry_title env entry of Some s \<Rightarrow> s | None \<Rightarrow> ''No title''),
                       link = (case entry_link env entry of Some s \<Rightarrow> s | None \<Rightarrow> []),
                       summary = (case entry_summary env entry of Some s \<Rightarrow> s | None \<Rightarrow> []),
                       dt_utc = dt,
                       image_url = img,
                       dt_ist = None\<rparr>)))"

text \<open>Lines 121-147: the loop; an exception in the body leaves the function.\<close>

fun build_items ::
  "('r, 'e, 't) env \<Rightarrow> string \<Rightarrow> 'e list \<Rightarrow> item list \<Rightarrow> exn + item list" where
  "build_items env source_name [] items = Inr items"
| "build_items env source_name (entry # entries) items =
     (case build_item env source_name entry of
        Inl e \<Rightarrow> Inl e
      | Inr it \<Rightarrow> build_items env source_name entries (items @ [it]))"

text \<open>Lines 118-147: what \<open>fetch_feed\<close> does with a response, outside its \<open>try\<close>.\<close>

definition parse_items :: "('r, 'e, 't) env \<Rightarrow> string \<Rightarrow> 'r \<Rightarrow> exn + item list" where
  "parse_items env source_name resp =
     (case feedparser_parse env resp of
        Inl e \<Rightarrow> Inl e
      | Inr entries \<Rightarrow> build_items env source_name entries [])"

definition fetch_feed :: "('r, 'e, 't) env \<Rightarrow> string \<Rightarrow> string \<Rightarrow> exn + item list" where
  "fetch_feed env source_name url =
     (case http_fetch env url of
        Inl e \<Rightarrow> Inr []
      | Inr resp \<Rightarrow> parse_items env source_name resp)"

text \<open>Lines 150-160; the feeds are those of \<open>FEEDS.items()\<close>.\<close>

fun fetch_all_loop ::
  "('r, 'e, 't) env \<Rightarrow> (string \<times> string) list \<Rightarrow> item list \<Rightarrow> item list" where
  "fetch_all_loop env [] all_items = all_items"
| "fetch_all_loop env ((name, url) # feeds) all_items =
     (case fetch_feed env name url of
        Inr feed_items \<Rightarrow> fetch_all_loop env feeds (all_items @ feed_items)
      | Inl e \<Rightarrow> fetch_all_loop env feeds all_items)"

definition fetch_all :: "('r, 'e, 't) env \<Rightarrow> (string \<times> string) list \<Rightarrow> item list" where
  "fetch_all env feeds = fetch_all_loop env feeds []"

section \<open>Vocabulary of the statements\<close>

text \<open>The instant an item is sorted by: that of its \<open>dt_ist\<close>.\<close>

definition ist_instant :: "item \<Rightarrow> int" where
  "ist_instant it = (case dt_ist it of Some d \<Rightarrow> instant d | None \<Rightarrow> 0)"

text \<open>An item is in the window when it has a \<open>dt_ist\<close> that is not older than the cutoff.\<close>

definition in_window :: "datetime \<Rightarrow> item \<Rightarrow> bool" where
  "in_window cutoff it = (case dt_ist it of None \<Rightarrow> False | Some d \<Rightarrow> dt_ge d cutoff)"

text \<open>
  The inputs on which no \<open>OverflowError\<close> arises: the cutoff and the local reading of
  every timestamp of the pool are representable.
\<close>

definition timestamps_representable :: "datetime \<Rightarrow> int \<Rightarrow> item list \<Rightarrow> bool" where
  "timestamps_representable now_ist hours_window items =
     (representable (wall_clock now_ist - hours_window * 3600000000)
      \<and> list_all (\<lambda>it. case dt_utc it of
                          None \<Rightarrow> True
                        | Some d \<Rightarrow> representable (instant d + utcoffset INDIA_TZ)) items)"

text \<open>The cutoff, and the item as the stamping loop leaves it, on such inputs.\<close>

definition cutoff_of :: "datetime \<Rightarrow> int \<Rightarrow> datetime" where
  "cutoff_of now_ist hours_window = now_ist\<lparr>instant := instant now_ist - hours_window * 3600000000\<rparr>"

definition local_time :: "datetime \<Rightarrow> item \<Rightarrow> datetime" where
  "local_time now_ist it = (case dt_utc it of Some d \<Rightarrow> d\<lparr>tzinfo := INDIA_TZ\<rparr> | None \<Rightarrow> now_ist)"

definition restamp :: "datetime \<Rightarrow> item \<Rightarrow> item" where
  "restamp now_ist it = it\<lparr>dt_ist := Some (local_time now_ist it)\<rparr>"

definition stamped :: "item list \<Rightarrow> bool" where
  "stamped xs = list_all (\<lambda>x. dt_ist x \<noteq> None) xs"

definition count_feed :: "string \<Rightarrow> item list \<Rightarrow> int" where
  "count_feed f xs = int (length (filter (\<lambda>it. feed it = f) xs))"

section \<open>Example inputs\<close>

definition example_now :: datetime where
  "example_now = \<lparr>instant = 1700000000000000, tzinfo = INDIA_TZ\<rparr>"

definition example_item :: "string \<Rightarrow> string \<Rightarrow> int option \<Rightarrow> item" where
  "example_item f l t =
     \<lparr>source = f, feed = f, title = ''headline'', link = l, summary = [],
      dt_utc = map_option (\<lambda>i. \<lparr>instant = i, tzinfo = UTC\<rparr>) t,
      image_url = None, dt_ist = None\<rparr>"

definition example_env :: "(string, string, int) env" where
  "example_env =
     \<lparr>session_get = (\<lambda>url. if url = ''http://www.moneycontrol.com/rss/latestnews.xml''
                            then Inl (Exception ''ConnectTimeout'') else Inr url),
      raise_for_status = (\<lambda>resp. Inr ()),
      feedparser_parse = (\<lambda>resp. Inr [''entry'']),
      published_parsed = (\<lambda>entry. Some 1699999999000000),
      updated_parsed = (\<lambda>entry. None),
      utc_datetime = (\<lambda>t. Inr \<lparr>instant = t, tzinfo = UTC\<rparr>),
      extract_image = (\<lambda>entry. Inr None),
      get_publisher_name = (\<lambda>source_name entry. Inr source_name),
      entry_title = (\<lambda>entry. Some entry),
      entry_link = (\<lambda>entry. Some entry),
      entry_summary = (\<lambda>entry. None)\<rparr>"

section \<open>The loops of the selector\<close>


lemma stamped_simps [simp]:
  "stamped []"
  "stamped (x # xs) = (dt_ist x \<noteq> None \<and> stamped xs)"
  "stamped (xs @ ys) = (stamped xs \<and> stamped ys)"
  by (auto simp: stamped_def list_all_iff)

lemma stamped_subset: "set xs \<subseteq> set ys \<Longrightarrow> stamped ys \<Longrightarrow> stamped xs"
  by (auto simp: stamped_def list_all_iff)

lemma stamped_filter: "stamped xs \<Longrightarrow> stamped (filter P xs)"
  by (auto simp: stamped_def list_all_iff)

lemma stamped_restamp: "stamped (map (restamp now) items)"
  by (simp add: stamped_def list_all_iff restamp_def)

lemma select_within_stamped:
  "stamped xs \<Longrightarrow> select_within c xs = Some (filter (\<lambda>it. instant c \<le> ist_instant it) xs)"
  by (induction xs) (auto simp: ist_instant_def dt_ge_def)

lemma map_snd_insort_key:
  assumes "\<forall>p\<in>set ps. f p = g (snd p)" and "f p0 = g (snd p0)"
  shows "map snd (insort_key f p0 ps) = insort_key g (snd p0) (map snd ps)"
  using assms by (induction ps) auto

lemma map_snd_sort_key:
  assumes "\<forall>p\<in>set ps. f p = g (snd p)"
  shows "map snd (sort_key f ps) = sort_key g (map snd ps)"
  using assms
proof (induction ps)
  case Nil
  then show ?case by simp
next
  case (Cons p ps)
  have "\<forall>q\<in>set (sort_key f ps). f q = g (snd q)"
    using Cons.prems by simp
  then have "map snd (insort_key f p (sort_key f ps)) = insort_key g (snd p) (map snd (sort_key f ps))"
    using Cons.prems by (intro map_snd_insort_key) auto
  then show ?case using Cons by simp
qed

lemma those_dt_ist:
  "stamped xs \<Longrightarrow> \<exists>ks. those (map dt_ist xs) = Some ks \<and> map Some ks = map dt_ist xs"
  by (induction xs) auto

lemma sort_newest_first_stamped:
  assumes "stamped xs"
  shows "sort_newest_first xs = Some (sort_key (\<lambda>it. - ist_instant it) xs)"
proof -
  obtain ks where ks: "those (map dt_ist xs) = Some ks" "map Some ks = map dt_ist xs"
    using those_dt_ist [OF assms] by blast
  have len: "length ks = length xs"
    using ks(2) by (metis length_map)
  have "\<forall>p\<in>set (zip ks xs). (\<lambda>(k, it). - instant k) p = - ist_instant (snd p)"
  proof
    fix p assume "p \<in> set (zip ks xs)"
    then obtain i where i: "i < length ks" "i < length xs" "p = (ks ! i, xs ! i)"
      by (auto simp: set_zip)
    have "map Some ks ! i = map dt_ist xs ! i" using ks(2) by simp
    then have "dt_ist (xs ! i) = Some (ks ! i)" using i by simp
    then show "(\<lambda>(k, it). - instant k) p = - ist_instant (snd p)"
      using i by (simp add: ist_instant_def)
  qed
  then have "map snd (sort_key (\<lambda>(k, it). - instant k) (zip ks xs))
           = sort_key (\<lambda>it. - ist_instant it) (map snd (zip ks xs))"
    by (rule map_snd_sort_key)
  then show ?thesis
    using ks(1) len by (simp add: sort_newest_first_def)
qed

lemma add_candidates_appends:
  "add_candidates lim cands (F, S, A) = (F', S', A') \<Longrightarrow>
   \<exists>added. F' = F @ added \<and> A' = A @ added \<and> S' = S \<union> set (map key_of added)
     \<and> set added \<subseteq> set cands \<and> distinct (map key_of added)
     \<and> (\<forall>a\<in>set added. key_of a \<notin> S)"
proof (induction cands arbitrary: F S A)
  case Nil
  then show ?case by simp
next
  case (Cons cand rest)
  show ?case
  proof (cases "key_of cand \<in> S")
    case True
    then have "add_candidates lim rest (F, S, A) = (F', S', A')"
      using Cons.prems by (simp add: key_of_def)
    from Cons.IH [OF this] show ?thesis by auto
  next
    case notin: False
    show ?thesis
    proof (cases "lim \<le> int (length (A @ [cand]))")
      case True
      then have "F' = F @ [cand]" "S' = insert (key_of cand) S" "A' = A @ [cand]"
        using Cons.prems notin by (simp_all add: key_of_def Let_def)
      then show ?thesis using notin
        by (intro exI [of _ "[cand]"]) simp
    next
      case False
      then have "add_candidates lim rest (F @ [cand], insert (key_of cand) S, A @ [cand]) = (F', S', A')"
        using Cons.prems notin by (simp add: key_of_def Let_def)
      from Cons.IH [OF this] obtain added where a:
        "F' = (F @ [cand]) @ added" "A' = (A @ [cand]) @ added"
        "S' = insert (key_of cand) S \<union> set (map key_of added)"
        "set added \<subseteq> set rest" "distinct (map key_of added)"
        "\<forall>a\<in>set added. key_of a \<notin> insert (key_of cand) S"
        by blast
      show ?thesis
        using a notin by (intro exI [of _ "cand # added"]) auto
    qed
  qed
qed

lemma add_candidates_upper:
  "add_candidates lim cands (F, S, A) = (F', S', A') \<Longrightarrow> int (length A) < lim \<Longrightarrow>
   int (length A') \<le> lim"
proof (induction cands arbitrary: F S A)
  case Nil
  then show ?case by simp
next
  case (Cons cand rest)
  then show ?case
    by (auto simp: Let_def split: if_splits)
qed

lemma add_candidates_mono:
  "add_candidates lim cands (F, S, A) = (F', S', A') \<Longrightarrow> S \<subseteq> S'"
  by (drule add_candidates_appends) auto

lemma add_candidates_complete:
  "add_candidates lim cands (F, S, A) = (F', S', A') \<Longrightarrow>
   lim \<le> int (length A') \<or> (\<forall>c\<in>set cands. key_of c \<in> S')"
proof (induction cands arbitrary: F S A)
  case Nil
  then show ?case by simp
next
  case (Cons cand rest)
  show ?case
  proof (cases "key_of cand \<in> S")
    case True
    then have r: "add_candidates lim rest (F, S, A) = (F', S', A')"
      using Cons.prems by (simp add: key_of_def)
    from Cons.IH [OF r] add_candidates_mono [OF r] True show ?thesis by auto
  next
    case notin: False
    show ?thesis
    proof (cases "lim \<le> int (length (A @ [cand]))")
      case True
      then have "A' = A @ [cand]"
        using Cons.prems notin by (simp add: key_of_def Let_def)
      then show ?thesis using True by simp
    next
      case False
      then have r: "add_candidates lim rest (F @ [cand], insert (key_of cand) S, A @ [cand]) = (F', S', A')"
        using Cons.prems notin by (simp add: key_of_def Let_def)
      from Cons.IH [OF r] add_candidates_mono [OF r] show ?thesis by auto
    qed
  qed
qed

lemma count_feed_append [simp]: "count_feed f (xs @ ys) = count_feed f xs + count_feed f ys"
  by (simp add: count_feed_def)

lemma count_feed_nonneg: "0 \<le> count_feed f xs"
  by (simp add: count_feed_def)

text \<open>What one pass of the loop body does, when the seen keys are those of the list.\<close>

lemma process_feed_char:
  assumes "stamped items"
  shows "\<exists>added. process_feed lim items fn (F, set (map key_of F))
            = Some (F @ added, set (map key_of (F @ added)))
          \<and> set added \<subseteq> {it \<in> set items. feed it = fn}
          \<and> distinct (map key_of added)
          \<and> (\<forall>a\<in>set added. key_of a \<notin> set (map key_of F))
          \<and> (added \<noteq> [] \<longrightarrow> count_feed fn (F @ added) \<le> lim)
          \<and> (lim \<le> count_feed fn (F @ added)
               \<or> (\<forall>c\<in>set items. feed c = fn \<longrightarrow> key_of c \<in> set (map key_of (F @ added))))"
proof -
  let ?fi = "filter (\<lambda>it. feed it = fn) items"
  let ?A = "filter (\<lambda>it. feed it = fn) F"
  let ?S = "set (map key_of F)"
  show ?thesis
  proof (cases "?fi = []")
    case True
    then have "\<forall>c\<in>set items. feed c \<noteq> fn"
      by (simp add: filter_empty_conv)
    then show ?thesis using True
      by (intro exI [of _ "[]"]) (simp add: process_feed_def)
  next
    case nonempty: False
    show ?thesis
    proof (cases "lim \<le> int (length ?A)")
      case True
      then show ?thesis using nonempty
        by (intro exI [of _ "[]"]) (simp add: process_feed_def count_feed_def)
    next
      case False
      let ?cands = "sort_key (\<lambda>it. - ist_instant it) ?fi"
      have srt: "sort_newest_first ?fi = Some ?cands"
        using assms by (intro sort_newest_first_stamped stamped_filter)
      obtain F' S' A' where r: "add_candidates lim ?cands (F, ?S, ?A) = (F', S', A')"
        by (cases "add_candidates lim ?cands (F, ?S, ?A)") auto
      from add_candidates_appends [OF r] obtain added where a:
        "F' = F @ added" "A' = ?A @ added" "S' = ?S \<union> set (map key_of added)"
        "set added \<subseteq> set ?cands" "distinct (map key_of added)"
        "\<forall>a\<in>set added. key_of a \<notin> ?S"
        by blast
      have pf: "process_feed lim items fn (F, ?S) = Some (F', S')"
        using nonempty False srt r by (simp add: process_feed_def)
      have sub: "set added \<subseteq> {it \<in> set items. feed it = fn}"
        using a(4) by auto
      then have fa: "filter (\<lambda>it. feed it = fn) added = added"
        by (auto simp: filter_id_conv)
      have A'_eq: "A' = filter (\<lambda>it. feed it = fn) (F @ added)"
        using a(2) fa by simp
      have up: "count_feed fn (F @ added) \<le> lim"
        using add_candidates_upper [OF r] False A'_eq by (simp add: count_feed_def)
      have S'_eq: "S' = set (map key_of (F @ added))"
        using a(3) by simp
      have compl: "lim \<le> count_feed fn (F @ added)
               \<or> (\<forall>c\<in>set items. feed c = fn \<longrightarrow> key_of c \<in> set (map key_of (F @ added)))"
        using add_candidates_complete [OF r] A'_eq S'_eq by (auto simp: count_feed_def)
      show ?thesis
        using pf a(1) S'_eq sub a(5) a(6) up compl
        by (intro exI [of _ added]) simp
    qed
  qed
qed

lemma fallback_feeds_char:
  assumes "stamped items"
  shows "\<exists>added. fallback_feeds lim items names (F, set (map key_of F))
            = Some (F @ added, set (map key_of (F @ added)))
          \<and> set added \<subseteq> set items
          \<and> (\<forall>a\<in>set added. feed a \<in> set names)
          \<and> distinct (map key_of added)
          \<and> (\<forall>a\<in>set added. key_of a \<notin> set (map key_of F))
          \<and> (\<forall>f. count_feed f added \<noteq> 0 \<longrightarrow> count_feed f (F @ added) \<le> lim)
          \<and> (\<forall>fn\<in>set names. lim \<le> count_feed fn (F @ added)
               \<or> (\<forall>c\<in>set items. feed c = fn \<longrightarrow> key_of c \<in> set (map key_of (F @ added))))"
proof (induction names arbitrary: F)
  case Nil
  show ?case by (intro exI [of _ "[]"]) (simp add: count_feed_def)
next
  case (Cons fn names)
  from process_feed_char [OF assms, of lim fn F] obtain a1 where p:
    "process_feed lim items fn (F, set (map key_of F)) = Some (F @ a1, set (map key_of (F @ a1)))"
    "set a1 \<subseteq> {it \<in> set items. feed it = fn}"
    "distinct (map key_of a1)"
    "\<forall>a\<in>set a1. key_of a \<notin> set (map key_of F)"
    "a1 \<noteq> [] \<longrightarrow> count_feed fn (F @ a1) \<le> lim"
    "lim \<le> count_feed fn (F @ a1)
       \<or> (\<forall>c\<in>set items. feed c = fn \<longrightarrow> key_of c \<in> set (map key_of (F @ a1)))"
    by blast
  from Cons.IH [of "F @ a1"] obtain a2 where q:
    "fallback_feeds lim items names (F @ a1, set (map key_of (F @ a1)))
       = Some ((F @ a1) @ a2, set (map key_of ((F @ a1) @ a2)))"
    "set a2 \<subseteq> set items"
    "\<forall>a\<in>set a2. feed a \<in> set names"
    "distinct (map key_of a2)"
    "\<forall>a\<in>set a2. key_of a \<notin> set (map key_of (F @ a1))"
    "\<forall>f. count_feed f a2 \<noteq> 0 \<longrightarrow> count_feed f ((F @ a1) @ a2) \<le> lim"
    "\<forall>fn\<in>set names. lim \<le> count_feed fn ((F @ a1) @ a2)
       \<or> (\<forall>c\<in>set items. feed c = fn \<longrightarrow> key_of c \<in> set (map key_of ((F @ a1) @ a2)))"
    by blast
  let ?added = "a1 @ a2"
  have 1: "fallback_feeds lim items (fn # names) (F, set (map key_of F))
            = Some (F @ ?added, set (map key_of (F @ ?added)))"
    using p(1) q(1) by simp
  have 2: "set ?added \<subseteq> set items"
    using p(2) q(2) by auto
  have 3: "\<forall>a\<in>set ?added. feed a \<in> set (fn # names)"
    using p(2) q(3) by auto
  have 4: "distinct (map key_of ?added)"
    using p(3) q(4) q(5) by auto
  have 5: "\<forall>a\<in>set ?added. key_of a \<notin> set (map key_of F)"
    using p(4) q(5) by auto
  have 6: "\<forall>f. count_feed f ?added \<noteq> 0 \<longrightarrow> count_feed f (F @ ?added) \<le> lim"
  proof (intro allI impI)
    fix f assume nz: "count_feed f ?added \<noteq> 0"
    show "count_feed f (F @ ?added) \<le> lim"
    proof (cases "count_feed f a2 = 0")
      case False
      then show ?thesis using q(6) by simp
    next
      case True
      then have nz1: "count_feed f a1 \<noteq> 0" using nz by simp
      then have "a1 \<noteq> []" by (auto simp: count_feed_def)
      moreover have "f = fn"
      proof (rule ccontr)
        assume "f \<noteq> fn"
        then have "filter (\<lambda>it. feed it = f) a1 = []"
          using p(2) by (auto simp: filter_empty_conv)
        then show False using nz1 by (simp add: count_feed_def)
      qed
      ultimately show ?thesis using p(5) True by simp
    qed
  qed
  have 7: "\<forall>g\<in>set (fn # names). lim \<le> count_feed g (F @ ?added)
       \<or> (\<forall>c\<in>set items. feed c = g \<longrightarrow> key_of c \<in> set (map key_of (F @ ?added)))"
  proof
    fix g assume g: "g \<in> set (fn # names)"
    show "lim \<le> count_feed g (F @ ?added)
       \<or> (\<forall>c\<in>set items. feed c = g \<longrightarrow> key_of c \<in> set (map key_of (F @ ?added)))"
    proof (cases "g \<in> set names")
      case True
      then show ?thesis using q(7) by simp
    next
      case False
      then have gfn: "g = fn" using g by simp
      from p(6) show ?thesis
      proof
        assume "lim \<le> count_feed fn (F @ a1)"
        moreover have "count_feed g (F @ ?added) = count_feed fn (F @ a1) + count_feed fn a2"
          using gfn by simp
        ultimately have "lim \<le> count_feed g (F @ ?added)"
          using count_feed_nonneg [of fn a2] by linarith
        then show ?thesis ..
      next
        assume "\<forall>c\<in>set items. feed c = fn \<longrightarrow> key_of c \<in> set (map key_of (F @ a1))"
        then have "\<forall>c\<in>set items. feed c = g \<longrightarrow> key_of c \<in> set (map key_of (F @ ?added))"
          using gfn by auto
        then show ?thesis ..
      qed
    qed
  qed
  show ?case
    using 1 2 3 4 5 6 7 by (intro exI [of _ ?added]) blast
qed

lemma in_window_ist_instant: "dt_ist it \<noteq> None \<Longrightarrow> in_window c it = (instant c \<le> ist_instant it)"
  by (auto simp: in_window_def ist_instant_def dt_ge_def)

lemma filter_in_window: 
  "stamped xs \<Longrightarrow> filter (\<lambda>it. instant c \<le> ist_instant it) xs = filter (in_window c) xs"
  by (rule filter_cong) (auto simp: stamped_def list_all_iff in_window_ist_instant)

section \<open>Overflow\<close>

lemma minus_hours_eq:
  "minus_hours now hours =
     (if representable (wall_clock now - hours * 3600000000)
      then Some (cutoff_of now hours) else None)"
  by (simp add: minus_hours_def cutoff_of_def)

lemma stamp_eq:
  "stamp now it =
     (if (case dt_utc it of None \<Rightarrow> True
          | Some d \<Rightarrow> representable (instant d + utcoffset INDIA_TZ))
      then Some (restamp now it) else None)"
  by (simp add: stamp_def astimezone_def restamp_def local_time_def split: option.split)

lemma stamp_items_eq:
  "stamp_items now items =
     (if list_all (\<lambda>it. case dt_utc it of None \<Rightarrow> True
                     | Some d \<Rightarrow> representable (instant d + utcoffset INDIA_TZ)) items
      then Some (map (restamp now) items) else None)"
  by (induction items) (simp_all add: stamp_eq)

lemma minus_hours_representable:
  "timestamps_representable now hours items \<Longrightarrow> minus_hours now hours = Some (cutoff_of now hours)"
  by (simp add: minus_hours_eq timestamps_representable_def)

lemma stamp_items_representable:
  "timestamps_representable now hours items \<Longrightarrow> stamp_items now items = Some (map (restamp now) items)"
  by (simp add: stamp_items_eq timestamps_representable_def)

lemma timestamps_representable_Nil:
  "timestamps_representable now hours items \<Longrightarrow> timestamps_representable now hours []"
  by (simp add: timestamps_representable_def)

lemma dt_ist_restamp: "dt_ist (restamp now it) = Some (local_time now it)"
  by (simp add: restamp_def)

lemma dt_utc_restamp [simp]: "dt_utc (restamp now it) = dt_utc it"
  by (simp add: restamp_def)

lemma feed_restamp [simp]: "feed (restamp now it) = feed it"
  by (simp add: restamp_def)

lemma link_restamp [simp]: "link (restamp now it) = link it"
  by (simp add: restamp_def)

lemma key_of_restamp [simp]: "key_of (restamp now it) = key_of it"
  by (simp add: key_of_def)

lemma local_time_restamp [simp]: "local_time now (restamp now' it) = local_time now it"
  by (simp add: local_time_def)

lemma restamp_idem [simp]: "restamp now (restamp now it) = restamp now it"
  by (simp add: restamp_def local_time_def)

lemma restamp_forget: "(restamp now it)\<lparr>dt_ist := None\<rparr> = it\<lparr>dt_ist := None\<rparr>"
  by (simp add: restamp_def)

lemma timestamps_representable_restamp:
  "timestamps_representable now hours (map (restamp now') items)
     = timestamps_representable now hours items"
  by (simp add: timestamps_representable_def list_all_iff)

lemma derived_dt_ist:
  assumes "timestamps_representable now hours items" and "it \<in> set items"
  shows "(case dt_utc it of Some d \<Rightarrow> astimezone d INDIA_TZ | None \<Rightarrow> Some now')
           = Some (local_time now' it)"
proof (cases "dt_utc it")
  case None
  then show ?thesis by (simp add: local_time_def)
next
  case (Some d)
  then have "representable (instant d + utcoffset INDIA_TZ)"
    using assms by (auto simp: timestamps_representable_def list_all_iff)
  then show ?thesis using Some by (simp add: local_time_def astimezone_def)
qed

section \<open>The result of the selector\<close>

lemma sorted_selection_char:
  fixes feeds hours now items0 lim
  defines "items \<equiv> map (restamp now) items0"
  defines "cutoff \<equiv> cutoff_of now hours"
  defines "W \<equiv> sort_key (\<lambda>it. - ist_instant it) (filter (in_window cutoff) items)"
  assumes rep: "timestamps_representable now hours items0"
  shows "\<exists>added.
          sorted_selection feeds hours now items0 lim
            = Some (items, sort_key (\<lambda>it. - ist_instant it) (W @ added))
          \<and> set added \<subseteq> set items
          \<and> (\<forall>a\<in>set added. feed a \<in> set (map fst feeds))
          \<and> distinct (map key_of added)
          \<and> (\<forall>a\<in>set added. key_of a \<notin> set (map key_of W))
          \<and> (\<forall>f. count_feed f added \<noteq> 0 \<longrightarrow> count_feed f (W @ added) \<le> lim)
          \<and> (\<forall>fn\<in>set (map fst feeds). lim \<le> count_feed fn (W @ added)
               \<or> (\<forall>c\<in>set items. feed c = fn \<longrightarrow> key_of c \<in> set (map key_of (W @ added))))"
proof -
  have mh: "minus_hours now hours = Some cutoff"
    unfolding cutoff_def using rep by (rule minus_hours_representable)
  have si: "stamp_items now items0 = Some items"
    unfolding items_def using rep by (rule stamp_items_representable)
  have st: "stamped items"
    unfolding items_def by (rule stamped_restamp)
  have sw: "select_within cutoff items = Some (filter (in_window cutoff) items)"
    using st by (simp add: select_within_stamped filter_in_window)
  have sn: "sort_newest_first (filter (in_window cutoff) items) = Some W"
    unfolding W_def using st by (intro sort_newest_first_stamped stamped_filter)
  have Wsub: "set W \<subseteq> set items"
    by (auto simp: W_def)
  from fallback_feeds_char [OF st, of lim "map fst feeds" W] obtain added where a:
    "fallback_feeds lim items (map fst feeds) (W, set (map key_of W))
            = Some (W @ added, set (map key_of (W @ added)))"
    "set added \<subseteq> set items"
    "\<forall>a\<in>set added. feed a \<in> set (map fst feeds)"
    "distinct (map key_of added)"
    "\<forall>a\<in>set added. key_of a \<notin> set (map key_of W)"
    "\<forall>f. count_feed f added \<noteq> 0 \<longrightarrow> count_feed f (W @ added) \<le> lim"
    "\<forall>fn\<in>set (map fst feeds). lim \<le> count_feed fn (W @ added)
               \<or> (\<forall>c\<in>set items. feed c = fn \<longrightarrow> key_of c \<in> set (map key_of (W @ added)))"
    by blast
  have "set (W @ added) \<subseteq> set items"
    using Wsub a(2) by simp
  then have "stamped (W @ added)"
    using st by (rule stamped_subset)
  then have sf: "sort_newest_first (W @ added) = Some (sort_key (\<lambda>it. - ist_instant it) (W @ added))"
    by (rule sort_newest_first_stamped)
  have sel: "sorted_selection feeds hours now items0 lim
            = Some (items, sort_key (\<lambda>it. - ist_instant it) (W @ added))"
    unfolding sorted_selection_def
    by (simp only: mh si sw sn a(1) sf bind.bind_lunit split_conv)
  show ?thesis
    apply (rule exI [of _ added])
    apply (intro conjI)
          apply (rule sel)
         apply (rule a(2))
        apply (rule a(3))
       apply (rule a(4))
      apply (rule a(5))
     apply (rule a(6))
    apply (rule a(7))
    done
qed

lemma filter_last_window_eq:
  "filter_last_window feeds hours now items lim glim
     = map_option (\<lambda>(pool, pre). (pool, trim glim pre)) (sorted_selection feeds hours now items lim)"
  by (cases "sorted_selection feeds hours now items lim") (auto simp: filter_last_window_def)

lemma sorted_selection_overflow:
  "\<not> timestamps_representable now hours items \<Longrightarrow> sorted_selection feeds hours now items lim = None"
  by (auto simp: sorted_selection_def timestamps_representable_def minus_hours_eq stamp_items_eq)

text \<open>The function returns exactly on the inputs without overflow.\<close>

lemma filter_last_window_returns_iff:
  "(filter_last_window feeds hours now items lim glim \<noteq> None)
     = timestamps_representable now hours items"
proof (cases "timestamps_representable now hours items")
  case True
  then obtain r where "sorted_selection feeds hours now items lim = Some r"
    using sorted_selection_char [of now hours items feeds lim] by blast
  then show ?thesis using True by (simp add: filter_last_window_eq)
next
  case False
  then show ?thesis
    by (simp add: filter_last_window_eq sorted_selection_overflow)
qed

lemma trim_None [simp]: "trim None xs = xs"
  by (simp add: trim_def)

lemma trim_nonneg: "0 \<le> g \<Longrightarrow> trim (Some g) xs = take (nat g) xs"
  by (auto simp: trim_def slice_to_def)

lemma trim_not_exceeded: "int (length xs) \<le> g \<Longrightarrow> trim (Some g) xs = xs"
  by (simp add: trim_def)

lemma trim_is_take: "\<exists>n. trim glim xs = take n xs"
proof (cases glim)
  case None
  then show ?thesis by (intro exI [of _ "length xs"]) simp
next
  case (Some g)
  show ?thesis
  proof (cases "g < int (length xs)")
    case True
    then show ?thesis using Some
      by (cases "0 \<le> g") (auto simp: trim_def slice_to_def)
  next
    case False
    then show ?thesis using Some
      by (intro exI [of _ "length xs"]) (simp add: trim_def)
  qed
qed

lemma stamped_take: "stamped xs \<Longrightarrow> stamped (take n xs)"
  by (rule stamped_subset [OF set_take_subset])

lemma stamped_sort_key: "stamped (sort_key f xs) = stamped xs"
  by (simp add: stamped_def list_all_iff)

lemma map_ist_instant:
  assumes "map dt_ist xs = map Some ds"
  shows "map ist_instant xs = map instant ds"
proof -
  have "map ist_instant xs = map (case_option 0 instant) (map dt_ist xs)"
    by (simp add: ist_instant_def)
  also have "\<dots> = map instant ds"
    unfolding assms by simp
  finally show ?thesis .
qed

lemma sorted_newest_first:
  assumes "stamped xs" and "sorted (map (\<lambda>it. - ist_instant it) xs)"
  shows "\<exists>ds. map dt_ist xs = map Some ds \<and> sorted_wrt dt_ge ds"
proof -
  obtain ds where ds: "map dt_ist xs = map Some ds"
    using those_dt_ist [OF assms(1)] by metis
  have "map (\<lambda>it. - ist_instant it) xs = map uminus (map ist_instant xs)"
    by simp
  also have "\<dots> = map (\<lambda>d. - instant d) ds"
    by (simp add: map_ist_instant [OF ds])
  finally have "sorted (map (\<lambda>d. - instant d) ds)"
    using assms(2) by simp
  then have "sorted_wrt dt_ge ds"
    by (simp add: sorted_map dt_ge_def [abs_def])
  then show ?thesis using ds by blast
qed

text \<open>Sorting and trimming a list of stamped items gives a list sorted newest first.\<close>

lemma trim_sort_newest_first:
  assumes "stamped L"
  shows "\<exists>ds. map dt_ist (trim glim (sort_key (\<lambda>it. - ist_instant it) L)) = map Some ds
           \<and> sorted_wrt dt_ge ds"
proof -
  let ?S = "sort_key (\<lambda>it. - ist_instant it) L"
  obtain n where n: "trim glim ?S = take n ?S"
    using trim_is_take by blast
  have st: "stamped (take n ?S)"
    using assms by (simp add: stamped_take stamped_sort_key)
  have "sorted (map (\<lambda>it. - ist_instant it) ?S)"
    by (rule sorted_sort_key)
  then have "sorted (take n (map (\<lambda>it. - ist_instant it) ?S))"
    by (rule sorted_wrt_take)
  then have "sorted (map (\<lambda>it. - ist_instant it) (take n ?S))"
    by (simp add: take_map)
  from sorted_newest_first [OF st this] show ?thesis
    unfolding n .
qed

lemma sorted_prefix_recent:
  assumes "sorted (map (\<lambda>it. - ist_instant it) xs)" and "i < j" and "j < length xs"
  shows "ist_instant (xs ! j) \<le> ist_instant (xs ! i)"
proof -
  have "map (\<lambda>it. - ist_instant it) xs ! i \<le> map (\<lambda>it. - ist_instant it) xs ! j"
    using assms by (intro sorted_nth_mono) auto
  then show ?thesis using assms by simp
qed

lemma distinct_map_sort_key: "distinct (map g (sort_key f xs)) = distinct (map g xs)"
proof -
  have "mset (map g (sort_key f xs)) = mset (map g xs)"
    by simp
  then show ?thesis
    by (rule mset_eq_imp_distinct_iff)
qed

lemma length_filter_take: "length (filter P (take n xs)) \<le> length (filter P xs)"
proof -
  have "length (filter P xs) = length (filter P (take n xs @ drop n xs))"
    by simp
  also have "\<dots> = length (filter P (take n xs)) + length (filter P (drop n xs))"
    by (simp only: filter_append length_append)
  finally show ?thesis by simp
qed

lemma length_filter_sort_key: "length (filter P (sort_key f xs)) = length (filter P xs)"
  by (simp add: filter_sort)

lemma count_feed_sort_key: "count_feed fn (sort_key f xs) = count_feed fn xs"
  by (simp add: count_feed_def length_filter_sort_key)

text \<open>
  The selection in one piece: the stamped pool, and the sorted list of the items of the
  window followed by what the fallback step added.
\<close>

lemma sorted_selection_result:
  assumes "timestamps_representable now hours items"
  obtains L where
    "sorted_selection feeds hours now items lim
        = Some (map (restamp now) items, sort_key (\<lambda>it. - ist_instant it) L)"
    "\<And>glim. filter_last_window feeds hours now items lim glim
        = Some (map (restamp now) items, trim glim (sort_key (\<lambda>it. - ist_instant it) L))"
    "set L \<subseteq> set (map (restamp now) items)"
    "stamped L"
proof -
  let ?W = "sort_key (\<lambda>it. - ist_instant it)
              (filter (in_window (cutoff_of now hours)) (map (restamp now) items))"
  from sorted_selection_char [OF assms, of feeds lim] obtain added where a:
    "sorted_selection feeds hours now items lim
        = Some (map (restamp now) items, sort_key (\<lambda>it. - ist_instant it) (?W @ added))"
    "set added \<subseteq> set (map (restamp now) items)"
    by blast
  have sub: "set (?W @ added) \<subseteq> set (map (restamp now) items)"
    using a(2) by auto
  then have st: "stamped (?W @ added)"
    using stamped_restamp by (rule stamped_subset)
  have flw: "filter_last_window feeds hours now items lim glim
        = Some (map (restamp now) items, trim glim (sort_key (\<lambda>it. - ist_instant it) (?W @ added)))"
    for glim
    by (simp add: filter_last_window_eq a(1))
  show thesis
    by (rule that [OF a(1) flw sub st])
qed

text \<open>What the fallback step adds lies outside the window.\<close>

lemma added_outside_window:
  assumes "set added \<subseteq> set items"
    and "\<forall>a\<in>set added. key_of a \<notin> set (map key_of (sort_key f (filter (in_window c) items)))"
  shows "filter (in_window c) added = []"
proof -
  have "\<not> in_window c a" if ain: "a \<in> set added" for a
  proof
    assume "in_window c a"
    then have "a \<in> set (sort_key f (filter (in_window c) items))"
      using assms(1) ain by auto
    then have "key_of a \<in> set (map key_of (sort_key f (filter (in_window c) items)))"
      by simp
    then show False using assms(2) ain by blast
  qed
  then show ?thesis by (simp add: filter_empty_conv)
qed

section \<open>The claims about the selector\<close>

text \<open>
  Claim C7.  \<open>filter_last_window\<close> never raises on a pool whose timestamps, where
  present, have a representable local reading: for every such pool, every feed
  configuration (the empty one too), every limit and every clock value with a
  representable cutoff it returns a result, items without a timestamp included; for
  the empty pool the result is the empty list, and the pool stays empty.
\<close>

theorem filter_last_window_never_raises:
  assumes "timestamps_representable now hours items"
  shows "(\<exists>pool out. filter_last_window feeds hours now items lim glim = Some (pool, out))
   \<and> filter_last_window feeds hours now [] lim glim = Some ([], [])
   \<and> (\<exists>pool out. filter_last_window [] hours now items lim glim = Some (pool, out))"
proof (intro conjI)
  show "\<exists>pool out. filter_last_window feeds hours now items lim glim = Some (pool, out)"
    using sorted_selection_result [OF assms, of feeds lim] by metis
  show "\<exists>pool out. filter_last_window [] hours now items lim glim = Some (pool, out)"
    using sorted_selection_result [OF assms, of "[]" lim] by metis
  have "timestamps_representable now hours []"
    using assms by (rule timestamps_representable_Nil)
  then obtain L where L:
    "filter_last_window feeds hours now [] lim glim
        = Some (map (restamp now) [], trim glim (sort_key (\<lambda>it. - ist_instant it) L))"
    "set L \<subseteq> set (map (restamp now) [])"
    using sorted_selection_result [of now hours "[]" feeds lim] by metis
  have "L = []" using L(2) by simp
  moreover obtain n where "trim glim ([]::item list) = take n []"
    using trim_is_take by blast
  ultimately show "filter_last_window feeds hours now [] lim glim = Some ([], [])"
    using L(1) by simp
qed

theorem filter_last_window_never_raises_witness:
  "timestamps_representable example_now HOURS_WINDOW
     [example_item ''Moneycontrol'' ''u'' None,
      example_item ''The Hindu - Markets'' ''v'' (Some 5)]
   \<and> ((\<exists>pool out. filter_last_window FEEDS HOURS_WINDOW example_now
          [example_item ''Moneycontrol'' ''u'' None,
           example_item ''The Hindu - Markets'' ''v'' (Some 5)] 1 (Some 120) = Some (pool, out))
      \<and> filter_last_window FEEDS HOURS_WINDOW example_now [] 1 (Some 120) = Some ([], [])
      \<and> (\<exists>pool out. filter_last_window [] HOURS_WINDOW example_now
          [example_item ''Moneycontrol'' ''u'' None,
           example_item ''The Hindu - Markets'' ''v'' (Some 5)] 1 (Some 120) = Some (pool, out)))
   \<and> map_option (map key_of \<circ> snd)
        (filter_last_window FEEDS HOURS_WINDOW example_now
          [example_item ''Moneycontrol'' ''u'' None,
           example_item ''The Hindu - Markets'' ''v'' (Some 5)] 1 (Some 120))
      = Some [(''Moneycontrol'', ''u''), (''The Hindu - Markets'', ''v'')]"
proof -
  have h: "timestamps_representable example_now HOURS_WINDOW
     [example_item ''Moneycontrol'' ''u'' None,
      example_item ''The Hindu - Markets'' ''v'' (Some 5)]"
    by code_simp
  have e: "map_option (map key_of \<circ> snd)
        (filter_last_window FEEDS HOURS_WINDOW example_now
          [example_item ''Moneycontrol'' ''u'' None,
           example_item ''The Hindu - Markets'' ''v'' (Some 5)] 1 (Some 120))
      = Some [(''Moneycontrol'', ''u''), (''The Hindu - Markets'', ''v'')]"
    by code_simp
  note t = filter_last_window_never_raises
             [OF h, where feeds = FEEDS and lim = 1 and glim = "Some 120"]
  show ?thesis
    by (rule conjI [OF h conjI [OF t e]])
qed

text \<open>
  The failure that the hypothesis excludes is real: line 177 raises \<open>OverflowError\<close> for
  an entry dated 9999-12-31T18:30:00Z, and returns for one dated a microsecond earlier.
\<close>

lemma overflow_at_line_177:
  "filter_last_window FEEDS HOURS_WINDOW example_now
     [example_item ''Moneycontrol'' ''u'' (Some 253402281000000000)] 1 (Some 120) = None
   \<and> map_option (map key_of \<circ> snd)
       (filter_last_window FEEDS HOURS_WINDOW example_now
          [example_item ''Moneycontrol'' ''u'' (Some 253402280999999999)] 1 (Some 120))
      = Some [(''Moneycontrol'', ''u'')]"
  by code_simp

text \<open>
  Claim C3.  The returned list is sorted newest first by \<open>dt_ist\<close>: every returned
  item has a \<open>dt_ist\<close>, and in the list \<open>ds\<close> of these timestamps every entry is at
  least as recent as its successor (\<open>successively\<close>), indeed as every later entry
  (\<open>sorted_wrt\<close>).
\<close>

theorem filter_last_window_sorted:
  assumes "timestamps_representable now hours items"
  shows "\<exists>pool out ds. filter_last_window feeds hours now items lim glim = Some (pool, out)
     \<and> map dt_ist out = map Some ds
     \<and> successively dt_ge ds \<and> sorted_wrt dt_ge ds"
proof -
  obtain L where L:
    "filter_last_window feeds hours now items lim glim
        = Some (map (restamp now) items, trim glim (sort_key (\<lambda>it. - ist_instant it) L))"
    "stamped L"
    using sorted_selection_result [OF assms, of feeds lim] by metis
  obtain ds where
    ds: "map dt_ist (trim glim (sort_key (\<lambda>it. - ist_instant it) L)) = map Some ds"
        "sorted_wrt dt_ge ds"
    using trim_sort_newest_first [OF L(2)] by blast
  have "successively dt_ge ds"
    using ds(2) by (rule successively_if_sorted_wrt)
  then show ?thesis
    using L(1) ds by blast
qed

theorem filter_last_window_sorted_witness:
  "timestamps_representable example_now HOURS_WINDOW
     [example_item ''The Hindu - Markets'' ''w'' (Some 1699999998000000),
      example_item ''Moneycontrol'' ''x'' (Some 5),
      example_item ''Moneycontrol'' ''v'' (Some 1699999999000000),
      example_item ''Moneycontrol'' ''u'' None]
   \<and> (\<exists>pool out ds. filter_last_window FEEDS HOURS_WINDOW example_now
         [example_item ''The Hindu - Markets'' ''w'' (Some 1699999998000000),
          example_item ''Moneycontrol'' ''x'' (Some 5),
          example_item ''Moneycontrol'' ''v'' (Some 1699999999000000),
          example_item ''Moneycontrol'' ''u'' None] 1 (Some 120) = Some (pool, out)
       \<and> map dt_ist out = map Some ds
       \<and> successively dt_ge ds \<and> sorted_wrt dt_ge ds)
   \<and> map_option (map ist_instant \<circ> snd)
        (filter_last_window FEEDS HOURS_WINDOW example_now
         [example_item ''The Hindu - Markets'' ''w'' (Some 1699999998000000),
          example_item ''Moneycontrol'' ''x'' (Some 5),
          example_item ''Moneycontrol'' ''v'' (Some 1699999999000000),
          example_item ''Moneycontrol'' ''u'' None] 1 (Some 120))
      = Some [1700000000000000, 1699999999000000, 1699999998000000]"
proof -
  have h: "timestamps_representable example_now HOURS_WINDOW
     [example_item ''The Hindu - Markets'' ''w'' (Some 1699999998000000),
      example_item ''Moneycontrol'' ''x'' (Some 5),
      example_item ''Moneycontrol'' ''v'' (Some 1699999999000000),
      example_item ''Moneycontrol'' ''u'' None]"
    by code_simp
  have e: "map_option (map ist_instant \<circ> snd)
        (filter_last_window FEEDS HOURS_WINDOW example_now
         [example_item ''The Hindu - Markets'' ''w'' (Some 1699999998000000),
          example_item ''Moneycontrol'' ''x'' (Some 5),
          example_item ''Moneycontrol'' ''v'' (Some 1699999999000000),
          example_item ''Moneycontrol'' ''u'' None] 1 (Some 120))
      = Some [1700000000000000, 1699999999000000, 1699999998000000]"
    by code_simp
  note t = filter_last_window_sorted
             [OF h, where feeds = FEEDS and lim = 1 and glim = "Some 120"]
  show ?thesis
    by (rule conjI [OF h conjI [OF t e]])
qed

text \<open>
  Claim C5.  After the call every item of the pool, and so every returned item, has
  \<open>dt_ist\<close> equal to its \<open>dt_utc\<close> moved to the display zone when it has one, and equal
  to the clock value \<open>now\<close> otherwise.  An item without timestamp therefore sorts as
  the present moment: whatever precedes it in the returned list is not older than \<open>now\<close>.
\<close>

theorem dt_ist_derived:
  assumes "timestamps_representable now hours items"
  shows "\<exists>pool out. filter_last_window feeds hours now items lim glim = Some (pool, out)
     \<and> map dt_ist pool
         = map (\<lambda>it. case dt_utc it of Some d \<Rightarrow> astimezone d INDIA_TZ | None \<Rightarrow> Some now) items
     \<and> map dt_ist out
         = map (\<lambda>it. case dt_utc it of Some d \<Rightarrow> astimezone d INDIA_TZ | None \<Rightarrow> Some now) out
     \<and> (\<forall>i j. i < j \<and> j < length out \<and> dt_utc (out ! j) = None \<longrightarrow> in_window now (out ! i))"
proof -
  obtain L where L:
    "filter_last_window feeds hours now items lim glim
        = Some (map (restamp now) items, trim glim (sort_key (\<lambda>it. - ist_instant it) L))"
    "set L \<subseteq> set (map (restamp now) items)"
    using sorted_selection_result [OF assms, of feeds lim] by metis
  let ?S = "sort_key (\<lambda>it. - ist_instant it) L"
  let ?out = "trim glim ?S"
  let ?d = "\<lambda>it. case dt_utc it of Some d \<Rightarrow> astimezone d INDIA_TZ | None \<Rightarrow> Some now"
  obtain n where n: "?out = take n ?S"
    using trim_is_take by blast
  have sub: "set ?out \<subseteq> set (map (restamp now) items)"
    using L(2) set_take_subset [of n ?S] unfolding n by auto
  have "dt_ist (restamp now it) = ?d it" if "it \<in> set items" for it
    using derived_dt_ist [OF assms that, of now] by (simp add: dt_ist_restamp)
  then have 1: "map dt_ist (map (restamp now) items) = map ?d items"
    by simp
  have each: "dt_ist x = ?d x \<and> dt_ist x = Some (local_time now x)" if xin: "x \<in> set ?out" for x
  proof -
    obtain it where it: "it \<in> set items" "x = restamp now it"
      using sub xin by auto
    show ?thesis
      using derived_dt_ist [OF assms it(1), of now] it(2) by (simp add: dt_ist_restamp)
  qed
  then have 2: "map dt_ist ?out = map ?d ?out"
    by simp
  have srt: "sorted (map (\<lambda>it. - ist_instant it) ?out)"
    unfolding n take_map [symmetric] by (rule sorted_wrt_take) (rule sorted_sort_key)
  have 3: "\<forall>i j. i < j \<and> j < length ?out \<and> dt_utc (?out ! j) = None \<longrightarrow> in_window now (?out ! i)"
  proof (intro allI impI)
    fix i j assume h: "i < j \<and> j < length ?out \<and> dt_utc (?out ! j) = None"
    then have "dt_ist (?out ! j) = Some now"
      using each [of "?out ! j"] by (simp add: local_time_def)
    then have "ist_instant (?out ! j) = instant now"
      by (simp add: ist_instant_def)
    then have le: "instant now \<le> ist_instant (?out ! i)"
      using sorted_prefix_recent [OF srt, of i j] h by simp
    have "i < length ?out"
      using h by simp
    then have "?out ! i \<in> set ?out"
      by (rule nth_mem)
    then have "dt_ist (?out ! i) = Some (local_time now (?out ! i))"
      by (rule each [THEN conjunct2])
    then have "dt_ist (?out ! i) \<noteq> None"
      by simp
    then show "in_window now (?out ! i)"
      using le by (simp add: in_window_ist_instant)
  qed
  show ?thesis
    using L(1) 1 2 3 by blast
qed

theorem dt_ist_derived_witness:
  "timestamps_representable example_now HOURS_WINDOW
       [example_item ''Moneycontrol'' ''u'' None,
        example_item ''Moneycontrol'' ''v'' (Some 1700000000000001)]
   \<and> (\<exists>pool out.
     filter_last_window FEEDS HOURS_WINDOW example_now
       [example_item ''Moneycontrol'' ''u'' None,
        example_item ''Moneycontrol'' ''v'' (Some 1700000000000001)] 1 (Some 120)
       = Some (pool, out)
     \<and> (0::nat) < 1 \<and> 1 < length out \<and> dt_utc (out ! 1) = None
     \<and> in_window example_now (out ! 0))"
proof -
  let ?items = "[example_item ''Moneycontrol'' ''u'' None,
        example_item ''Moneycontrol'' ''v'' (Some 1700000000000001)]"
  have h: "timestamps_representable example_now HOURS_WINDOW ?items"
    by code_simp
  obtain pool out where r:
    "filter_last_window FEEDS HOURS_WINDOW example_now ?items 1 (Some 120) = Some (pool, out)"
    "\<forall>i j. i < j \<and> j < length out \<and> dt_utc (out ! j) = None \<longrightarrow> in_window example_now (out ! i)"
    using dt_ist_derived [OF h, where feeds = FEEDS and lim = 1 and glim = "Some 120"] by blast
  have "map_option (map dt_utc \<circ> snd)
          (filter_last_window FEEDS HOURS_WINDOW example_now ?items 1 (Some 120))
        = Some [Some \<lparr>instant = 1700000000000001, tzinfo = UTC\<rparr>, None]"
    by code_simp
  then have m: "map dt_utc out = [Some \<lparr>instant = 1700000000000001, tzinfo = UTC\<rparr>, None]"
    using r(1) by simp
  then have len: "length out = 2"
    by (metis length_map length_Cons list.size(3) numeral_2_eq_2)
  have "map dt_utc out ! 1 = None" using m by simp
  then have none: "dt_utc (out ! 1) = None" using len by simp
  then have "in_window example_now (out ! 0)"
    using r(2) [rule_format, of 0 1] len by simp
  then have "\<exists>pool out.
     filter_last_window FEEDS HOURS_WINDOW example_now ?items 1 (Some 120) = Some (pool, out)
     \<and> (0::nat) < 1 \<and> 1 < length out \<and> dt_utc (out ! 1) = None
     \<and> in_window example_now (out ! 0)"
    using r(1) len none by simp
  then show ?thesis
    using h by (rule conjI [rotated])
qed

text \<open>
  Claim C8.  Selection is deterministic in the pool, the parameters and the clock value:
  the model is a function of exactly these.  Run again on the same pool, which the first
  run has stamped, with the same clock value, it returns the same list and leaves the pool
  as it found it.
\<close>

theorem second_run_identical:
  assumes "timestamps_representable now hours items"
  shows "\<exists>pool out. filter_last_window feeds hours now items lim glim = Some (pool, out)
     \<and> filter_last_window feeds hours now pool lim glim = Some (pool, out)"
proof -
  let ?pool = "map (restamp now) items"
  obtain L where L:
    "filter_last_window feeds hours now items lim glim
        = Some (?pool, trim glim (sort_key (\<lambda>it. - ist_instant it) L))"
    using sorted_selection_result [OF assms, of feeds lim] by metis
  have rep': "timestamps_representable now hours ?pool"
    using assms by (simp only: timestamps_representable_restamp)
  have "stamp_items now ?pool = Some ?pool"
    using stamp_items_representable [OF rep'] by simp
  then have "stamp_items now ?pool = stamp_items now items"
    using stamp_items_representable [OF assms] by simp
  then have "sorted_selection feeds hours now ?pool lim = sorted_selection feeds hours now items lim"
    by (simp only: sorted_selection_def)
  then have "filter_last_window feeds hours now ?pool lim glim
      = filter_last_window feeds hours now items lim glim"
    by (simp only: filter_last_window_eq)
  then show ?thesis using L by simp
qed

theorem second_run_identical_witness:
  "timestamps_representable example_now HOURS_WINDOW
     [example_item ''Moneycontrol'' ''u'' None,
      example_item ''The Hindu - Markets'' ''v'' (Some 1699999999000000),
      example_item ''The Hindu - Markets'' ''w'' (Some 5)]
   \<and> (\<exists>pool out. filter_last_window FEEDS HOURS_WINDOW example_now
         [example_item ''Moneycontrol'' ''u'' None,
          example_item ''The Hindu - Markets'' ''v'' (Some 1699999999000000),
          example_item ''The Hindu - Markets'' ''w'' (Some 5)] 2 (Some 120) = Some (pool, out)
       \<and> filter_last_window FEEDS HOURS_WINDOW example_now pool 2 (Some 120) = Some (pool, out))
   \<and> map_option (map key_of \<circ> snd)
        (filter_last_window FEEDS HOURS_WINDOW example_now
         [example_item ''Moneycontrol'' ''u'' None,
          example_item ''The Hindu - Markets'' ''v'' (Some 1699999999000000),
          example_item ''The Hindu - Markets'' ''w'' (Some 5)] 2 (Some 120))
      = Some [(''Moneycontrol'', ''u''), (''The Hindu - Markets'', ''v''),
              (''The Hindu - Markets'', ''w'')]"
proof -
  have h: "timestamps_representable example_now HOURS_WINDOW
     [example_item ''Moneycontrol'' ''u'' None,
      example_item ''The Hindu - Markets'' ''v'' (Some 1699999999000000),
      example_item ''The Hindu - Markets'' ''w'' (Some 5)]"
    by code_simp
  have e: "map_option (map key_of \<circ> snd)
        (filter_last_window FEEDS HOURS_WINDOW example_now
         [example_item ''Moneycontrol'' ''u'' None,
          example_item ''The Hindu - Markets'' ''v'' (Some 1699999999000000),
          example_item ''The Hindu - Markets'' ''w'' (Some 5)] 2 (Some 120))
      = Some [(''Moneycontrol'', ''u''), (''The Hindu - Markets'', ''v''),
              (''The Hindu - Markets'', ''w'')]"
    by code_simp
  note t = second_run_identical
             [OF h, where feeds = FEEDS and lim = 2 and glim = "Some 120"]
  show ?thesis
    by (rule conjI [OF h conjI [OF t e]])
qed

text \<open>
  Claim C4 as stated fails: the pool holds an item without \<open>dt_ist\<close> before the call and
  a changed item after it.
\<close>

theorem pool_mutated_counterexample:
  "map_option fst
     (filter_last_window FEEDS HOURS_WINDOW example_now
        [example_item ''Moneycontrol'' ''u'' None] 1 (Some 120))
   \<noteq> Some [example_item ''Moneycontrol'' ''u'' None]"
  by code_simp

text \<open>
  Claim C4, amended.  The call writes \<open>dt_ist\<close> into the items of the pool and changes
  nothing else: the pool keeps its length and order, every item keeps all its other
  fields, and the returned list is made of items of the pool.
\<close>

theorem pool_changes_only_dt_ist:
  assumes "timestamps_representable now hours items"
  shows "\<exists>pool out. filter_last_window feeds hours now items lim glim = Some (pool, out)
     \<and> map (\<lambda>it. it\<lparr>dt_ist := None\<rparr>) pool = map (\<lambda>it. it\<lparr>dt_ist := None\<rparr>) items
     \<and> set out \<subseteq> set pool"
proof -
  obtain L where L:
    "filter_last_window feeds hours now items lim glim
        = Some (map (restamp now) items, trim glim (sort_key (\<lambda>it. - ist_instant it) L))"
    "set L \<subseteq> set (map (restamp now) items)"
    using sorted_selection_result [OF assms, of feeds lim] by metis
  let ?S = "sort_key (\<lambda>it. - ist_instant it) L"
  obtain n where n: "trim glim ?S = take n ?S"
    using trim_is_take by blast
  have "set (trim glim ?S) \<subseteq> set (map (restamp now) items)"
    using L(2) set_take_subset [of n ?S] unfolding n by auto
  moreover have "map (\<lambda>it. it\<lparr>dt_ist := None\<rparr>) (map (restamp now) items)
      = map (\<lambda>it. it\<lparr>dt_ist := None\<rparr>) items"
    by (simp add: restamp_forget)
  ultimately show ?thesis using L(1) by blast
qed

theorem pool_changes_only_dt_ist_witness:
  "timestamps_representable example_now HOURS_WINDOW
     [example_item ''Moneycontrol'' ''u'' None,
      example_item ''The Hindu - Markets'' ''v'' (Some 1699999999000000)]
   \<and> (\<exists>pool out. filter_last_window FEEDS HOURS_WINDOW example_now
         [example_item ''Moneycontrol'' ''u'' None,
          example_item ''The Hindu - Markets'' ''v'' (Some 1699999999000000)] 1 (Some 120)
          = Some (pool, out)
       \<and> map (\<lambda>it. it\<lparr>dt_ist := None\<rparr>) pool
           = map (\<lambda>it. it\<lparr>dt_ist := None\<rparr>)
               [example_item ''Moneycontrol'' ''u'' None,
                example_item ''The Hindu - Markets'' ''v'' (Some 1699999999000000)]
       \<and> set out \<subseteq> set pool)
   \<and> map_option (map (map_option instant \<circ> dt_ist) \<circ> fst)
        (filter_last_window FEEDS HOURS_WINDOW example_now
         [example_item ''Moneycontrol'' ''u'' None,
          example_item ''The Hindu - Markets'' ''v'' (Some 1699999999000000)] 1 (Some 120))
      = Some [Some 1700000000000000, Some 1699999999000000]"
proof -
  have h: "timestamps_representable example_now HOURS_WINDOW
     [example_item ''Moneycontrol'' ''u'' None,
      example_item ''The Hindu - Markets'' ''v'' (Some 1699999999000000)]"
    by code_simp
  have e: "map_option (map (map_option instant \<circ> dt_ist) \<circ> fst)
        (filter_last_window FEEDS HOURS_WINDOW example_now
         [example_item ''Moneycontrol'' ''u'' None,
          example_item ''The Hindu - Markets'' ''v'' (Some 1699999999000000)] 1 (Some 120))
      = Some [Some 1700000000000000, Some 1699999999000000]"
    by code_simp
  note t = pool_changes_only_dt_ist
             [OF h, where feeds = FEEDS and lim = 1 and glim = "Some 120"]
  show ?thesis
    by (rule conjI [OF h conjI [OF t e]])
qed

text \<open>
  Claim C6.  With a limit \<open>g\<close> (not negative) the returned list is the first \<open>g\<close>
  entries of the sorted selection \<open>pre\<close> of lines 171-220: a list sorted newest first,
  made of items of the pool, that holds every item of the window as often as the pool
  does.  So its length is at most \<open>g\<close>, and the entries kept are the most recent ones.
  Without a limit the selection itself is returned.
\<close>

theorem global_limit_cap:
  assumes "0 \<le> g" and "timestamps_representable now hours items"
  shows "\<exists>cutoff pool pre ds.
       minus_hours now hours = Some cutoff
     \<and> sorted_selection feeds hours now items lim = Some (pool, pre)
     \<and> mset (filter (in_window cutoff) pre) = mset (filter (in_window cutoff) pool)
     \<and> set pre \<subseteq> set pool
     \<and> map dt_ist pre = map Some ds \<and> sorted_wrt dt_ge ds
     \<and> filter_last_window feeds hours now items lim None = Some (pool, pre)
     \<and> filter_last_window feeds hours now items lim (Some g) = Some (pool, take (nat g) pre)
     \<and> int (length (take (nat g) pre)) \<le> g"
proof -
  let ?pool = "map (restamp now) items"
  let ?c = "cutoff_of now hours"
  let ?W = "sort_key (\<lambda>it. - ist_instant it) (filter (in_window ?c) ?pool)"
  from sorted_selection_char [OF assms(2), of feeds lim] obtain added where a:
    "sorted_selection feeds hours now items lim
        = Some (?pool, sort_key (\<lambda>it. - ist_instant it) (?W @ added))"
    "set added \<subseteq> set ?pool"
    "\<forall>a\<in>set added. key_of a \<notin> set (map key_of ?W)"
    by blast
  let ?pre = "sort_key (\<lambda>it. - ist_instant it) (?W @ added)"
  have 0: "minus_hours now hours = Some ?c"
    using assms(2) by (rule minus_hours_representable)
  have "filter (in_window ?c) added = []"
    using a(2) a(3) by (rule added_outside_window)
  then have "filter (in_window ?c) (?W @ added) = filter (in_window ?c) ?W"
    by simp
  moreover have "mset (filter (in_window ?c) ?pre) = mset (filter (in_window ?c) (?W @ added))"
    by (simp only: mset_filter mset_sort)
  moreover have "mset (filter (in_window ?c) ?W) = mset (filter (in_window ?c) ?pool)"
    by simp
  ultimately have 1: "mset (filter (in_window ?c) ?pre) = mset (filter (in_window ?c) ?pool)"
    by (simp only:)
  have sub: "set (?W @ added) \<subseteq> set ?pool"
    using a(2) by auto
  then have 2: "set ?pre \<subseteq> set ?pool"
    by simp
  have "stamped (?W @ added)"
    using sub stamped_restamp by (rule stamped_subset)
  then obtain ds where ds: "map dt_ist ?pre = map Some ds" "sorted_wrt dt_ge ds"
    using trim_sort_newest_first [of "?W @ added" None] by auto
  have 3: "filter_last_window feeds hours now items lim None = Some (?pool, ?pre)"
    by (simp add: filter_last_window_eq a(1))
  have 4: "filter_last_window feeds hours now items lim (Some g) = Some (?pool, take (nat g) ?pre)"
    using assms(1) by (simp add: filter_last_window_eq a(1) trim_nonneg)
  have 5: "int (length (take (nat g) ?pre)) \<le> g"
    using assms(1) by simp
  show ?thesis
    apply (rule exI [of _ ?c])
    apply (rule exI [of _ ?pool])
    apply (rule exI [of _ ?pre])
    apply (rule exI [of _ ds])
    apply (intro conjI)
            apply (rule 0)
           apply (rule a(1))
          apply (rule 1)
         apply (rule 2)
        apply (rule ds(1))
       apply (rule ds(2))
      apply (rule 3)
     apply (rule 4)
    apply (rule 5)
    done
qed

theorem global_limit_cap_witness:
  "(0::int) \<le> 2
   \<and> timestamps_representable example_now HOURS_WINDOW
        [example_item ''Moneycontrol'' ''u'' None,
         example_item ''Moneycontrol'' ''v'' (Some 1699999999000000),
         example_item ''The Hindu - Markets'' ''w'' (Some 1699999998000000)]
   \<and> (\<exists>cutoff pool pre ds.
       minus_hours example_now HOURS_WINDOW = Some cutoff
     \<and> sorted_selection FEEDS HOURS_WINDOW example_now
        [example_item ''Moneycontrol'' ''u'' None,
         example_item ''Moneycontrol'' ''v'' (Some 1699999999000000),
         example_item ''The Hindu - Markets'' ''w'' (Some 1699999998000000)] 1 = Some (pool, pre)
     \<and> mset (filter (in_window cutoff) pre) = mset (filter (in_window cutoff) pool)
     \<and> set pre \<subseteq> set pool
     \<and> map dt_ist pre = map Some ds \<and> sorted_wrt dt_ge ds
     \<and> filter_last_window FEEDS HOURS_WINDOW example_now
        [example_item ''Moneycontrol'' ''u'' None,
         example_item ''Moneycontrol'' ''v'' (Some 1699999999000000),
         example_item ''The Hindu - Markets'' ''w'' (Some 1699999998000000)] 1 None = Some (pool, pre)
     \<and> filter_last_window FEEDS HOURS_WINDOW example_now
        [example_item ''Moneycontrol'' ''u'' None,
         example_item ''Moneycontrol'' ''v'' (Some 1699999999000000),
         example_item ''The Hindu - Markets'' ''w'' (Some 1699999998000000)] 1 (Some 2)
          = Some (pool, take (nat 2) pre)
     \<and> int (length (take (nat 2) pre)) \<le> 2)
   \<and> map_option (map key_of \<circ> snd)
        (sorted_selection FEEDS HOURS_WINDOW example_now
        [example_item ''Moneycontrol'' ''u'' None,
         example_item ''Moneycontrol'' ''v'' (Some 1699999999000000),
         example_item ''The Hindu - Markets'' ''w'' (Some 1699999998000000)] 1)
      = Some [(''Moneycontrol'', ''u''), (''Moneycontrol'', ''v''), (''The Hindu - Markets'', ''w'')]
   \<and> map_option (map key_of \<circ> snd)
        (filter_last_window FEEDS HOURS_WINDOW example_now
        [example_item ''Moneycontrol'' ''u'' None,
         example_item ''Moneycontrol'' ''v'' (Some 1699999999000000),
         example_item ''The Hindu - Markets'' ''w'' (Some 1699999998000000)] 1 (Some 2))
      = Some [(''Moneycontrol'', ''u''), (''Moneycontrol'', ''v'')]"
proof -
  have h0: "(0::int) \<le> 2" by simp
  have h: "timestamps_representable example_now HOURS_WINDOW
        [example_item ''Moneycontrol'' ''u'' None,
         example_item ''Moneycontrol'' ''v'' (Some 1699999999000000),
         example_item ''The Hindu - Markets'' ''w'' (Some 1699999998000000)]"
    by code_simp
  have e1: "map_option (map key_of \<circ> snd)
        (sorted_selection FEEDS HOURS_WINDOW example_now
        [example_item ''Moneycontrol'' ''u'' None,
         example_item ''Moneycontrol'' ''v'' (Some 1699999999000000),
         example_item ''The Hindu - Markets'' ''w'' (Some 1699999998000000)] 1)
      = Some [(''Moneycontrol'', ''u''), (''Moneycontrol'', ''v''), (''The Hindu - Markets'', ''w'')]"
    by code_simp
  have e2: "map_option (map key_of \<circ> snd)
        (filter_last_window FEEDS HOURS_WINDOW example_now
        [example_item ''Moneycontrol'' ''u'' None,
         example_item ''Moneycontrol'' ''v'' (Some 1699999999000000),
         example_item ''The Hindu - Markets'' ''w'' (Some 1699999998000000)] 1 (Some 2))
      = Some [(''Moneycontrol'', ''u''), (''Moneycontrol'', ''v'')]"
    by code_simp
  note t = global_limit_cap [OF h0 h, where feeds = FEEDS and lim = 1]
  show ?thesis
    by (rule conjI [OF h0 conjI [OF h conjI [OF t conjI [OF e1 e2]]]])
qed

text \<open>
  Claim C1.  The code breaks it: two entries of one feed without a link, both inside the
  window, are both returned.  The seed of line 189 is not de-duplicated; only the
  fallback step tests \<open>seen_keys\<close>.
\<close>

theorem duplicate_seed_returned:
  "map_option (map key_of \<circ> snd)
     (filter_last_window FEEDS HOURS_WINDOW example_now
        [example_item ''Moneycontrol'' [] (Some 1699999999000000),
         example_item ''Moneycontrol'' [] (Some 1699999998000000)] 1 (Some 120))
   = Some [(''Moneycontrol'', []), (''Moneycontrol'', [])]"
  by code_simp

text \<open>
  What the code does keep: a \<open>(feed, link)\<close> pair occurs in the returned list at most
  once, unless the items of the window hold it more often, and then at most as often
  as they do.
\<close>

lemma duplicates_only_from_window:
  assumes "timestamps_representable now hours items"
  shows "\<exists>pool out. filter_last_window feeds hours now items lim glim = Some (pool, out)
     \<and> count (mset (map key_of out)) k
         \<le> max 1 (count (mset (map key_of (filter (in_window (cutoff_of now hours)) pool))) k)"
proof -
  let ?pool = "map (restamp now) items"
  let ?c = "cutoff_of now hours"
  let ?W = "sort_key (\<lambda>it. - ist_instant it) (filter (in_window ?c) ?pool)"
  from sorted_selection_char [OF assms, of feeds lim] obtain added where a:
    "sorted_selection feeds hours now items lim
        = Some (?pool, sort_key (\<lambda>it. - ist_instant it) (?W @ added))"
    "distinct (map key_of added)"
    "\<forall>a\<in>set added. key_of a \<notin> set (map key_of ?W)"
    by blast
  let ?S = "sort_key (\<lambda>it. - ist_instant it) (?W @ added)"
  obtain n where n: "trim glim ?S = take n ?S"
    using trim_is_take by blast
  have "mset (map key_of ?S) = mset (map key_of (take n ?S)) + mset (map key_of (drop n ?S))"
    by (metis append_take_drop_id map_append mset_append)
  then have le1: "count (mset (map key_of (take n ?S))) k \<le> count (mset (map key_of ?S)) k"
    by simp
  have eq: "count (mset (map key_of ?S)) k
      = count (mset (map key_of ?W)) k + count (mset (map key_of added)) k"
    by simp
  have wk: "count (mset (map key_of ?W)) k
      = count (mset (map key_of (filter (in_window ?c) ?pool))) k"
    by simp
  have "count (mset (map key_of added)) k = (if k \<in> set (map key_of added) then 1 else 0)"
    using a(2) unfolding distinct_count_atmost_1 by (rule spec)
  then have ak: "count (mset (map key_of added)) k \<le> 1"
    by (simp split: if_splits)
  have "count (mset (map key_of ?W)) k + count (mset (map key_of added)) k
      \<le> max 1 (count (mset (map key_of ?W)) k)"
  proof (cases "k \<in> set (map key_of added)")
    case True
    then have "k \<notin> set (map key_of ?W)"
      using a(3) by auto
    then have "count (mset (map key_of ?W)) k = 0"
      by (simp add: count_eq_zero_iff)
    then show ?thesis using ak by simp
  next
    case False
    then have "count (mset (map key_of added)) k = 0"
      by (simp add: count_eq_zero_iff)
    then show ?thesis by simp
  qed
  then have "count (mset (map key_of (trim glim ?S))) k
      \<le> max 1 (count (mset (map key_of (filter (in_window ?c) ?pool))) k)"
    using le1 eq wk unfolding n by linarith
  moreover have "filter_last_window feeds hours now items lim glim = Some (?pool, trim glim ?S)"
    by (simp add: filter_last_window_eq a(1))
  ultimately show ?thesis by blast
qed

text \<open>
  Claim C10.  For every feed, at most \<open>fallback_limit_per_feed\<close> (not negative) of the
  returned items of that feed are older than the cutoff.
\<close>

theorem old_items_bounded:
  assumes "0 \<le> lim" and "timestamps_representable now hours items"
  shows "\<exists>cutoff pool out. minus_hours now hours = Some cutoff
     \<and> filter_last_window feeds hours now items lim glim = Some (pool, out)
     \<and> int (length (filter (\<lambda>it. feed it = f \<and> \<not> in_window cutoff it) out)) \<le> lim"
proof -
  let ?pool = "map (restamp now) items"
  let ?c = "cutoff_of now hours"
  let ?W = "sort_key (\<lambda>it. - ist_instant it) (filter (in_window ?c) ?pool)"
  let ?P = "\<lambda>it. feed it = f \<and> \<not> in_window ?c it"
  from sorted_selection_char [OF assms(2), of feeds lim] obtain added where a:
    "sorted_selection feeds hours now items lim
        = Some (?pool, sort_key (\<lambda>it. - ist_instant it) (?W @ added))"
    "\<forall>f. count_feed f added \<noteq> 0 \<longrightarrow> count_feed f (?W @ added) \<le> lim"
    by blast
  let ?S = "sort_key (\<lambda>it. - ist_instant it) (?W @ added)"
  obtain n where n: "trim glim ?S = take n ?S"
    using trim_is_take by blast
  have "filter ?P ?W = []"
    by (auto simp: filter_empty_conv)
  then have "length (filter ?P (?W @ added)) = length (filter ?P added)"
    by simp
  also have "\<dots> \<le> length (filter (\<lambda>it. feed it = f) added)"
  proof -
    have "filter ?P added = filter (\<lambda>it. \<not> in_window ?c it) (filter (\<lambda>it. feed it = f) added)"
      by (simp add: conj_commute)
    then show ?thesis by (simp only: length_filter_le)
  qed
  finally have le1: "int (length (filter ?P (?W @ added))) \<le> count_feed f added"
    by (simp add: count_feed_def)
  have le2: "count_feed f added \<le> lim"
  proof (cases "count_feed f added = 0")
    case True
    then show ?thesis using assms(1) by simp
  next
    case False
    then have "count_feed f (?W @ added) \<le> lim" using a(2) by blast
    then show ?thesis using count_feed_nonneg [of f ?W] by simp
  qed
  have "length (filter ?P (trim glim ?S)) \<le> length (filter ?P ?S)"
    unfolding n by (rule length_filter_take)
  also have "\<dots> = length (filter ?P (?W @ added))"
    by (rule length_filter_sort_key)
  finally have "int (length (filter ?P (trim glim ?S))) \<le> lim"
    using le1 le2 by linarith
  moreover have "filter_last_window feeds hours now items lim glim = Some (?pool, trim glim ?S)"
    by (simp add: filter_last_window_eq a(1))
  moreover have "minus_hours now hours = Some ?c"
    using assms(2) by (rule minus_hours_representable)
  ultimately show ?thesis by blast
qed

theorem old_items_bounded_witness:
  "(0::int) \<le> 2
   \<and> timestamps_representable example_now HOURS_WINDOW
        [example_item ''Moneycontrol'' ''u'' (Some 1699999999000000),
         example_item ''The Hindu - Markets'' ''u'' (Some 7),
         example_item ''The Hindu - Markets'' ''v'' (Some 5),
         example_item ''The Hindu - Markets'' ''w'' (Some 4)]
   \<and> (\<exists>cutoff pool out. minus_hours example_now HOURS_WINDOW = Some cutoff
     \<and> filter_last_window FEEDS HOURS_WINDOW example_now
        [example_item ''Moneycontrol'' ''u'' (Some 1699999999000000),
         example_item ''The Hindu - Markets'' ''u'' (Some 7),
         example_item ''The Hindu - Markets'' ''v'' (Some 5),
         example_item ''The Hindu - Markets'' ''w'' (Some 4)] 2 (Some 120) = Some (pool, out)
     \<and> int (length (filter (\<lambda>it. feed it = ''The Hindu - Markets''
              \<and> \<not> in_window cutoff it) out)) \<le> 2)
   \<and> map_option (map key_of \<circ> snd)
        (filter_last_window FEEDS HOURS_WINDOW example_now
        [example_item ''Moneycontrol'' ''u'' (Some 1699999999000000),
         example_item ''The Hindu - Markets'' ''u'' (Some 7),
         example_item ''The Hindu - Markets'' ''v'' (Some 5),
         example_item ''The Hindu - Markets'' ''w'' (Some 4)] 2 (Some 120))
      = Some [(''Moneycontrol'', ''u''), (''The Hindu - Markets'', ''u''),
              (''The Hindu - Markets'', ''v'')]"
proof -
  have h0: "(0::int) \<le> 2" by simp
  have h: "timestamps_representable example_now HOURS_WINDOW
        [example_item ''Moneycontrol'' ''u'' (Some 1699999999000000),
         example_item ''The Hindu - Markets'' ''u'' (Some 7),
         example_item ''The Hindu - Markets'' ''v'' (Some 5),
         example_item ''The Hindu - Markets'' ''w'' (Some 4)]"
    by code_simp
  have e: "map_option (map key_of \<circ> snd)
        (filter_last_window FEEDS HOURS_WINDOW example_now
        [example_item ''Moneycontrol'' ''u'' (Some 1699999999000000),
         example_item ''The Hindu - Markets'' ''u'' (Some 7),
         example_item ''The Hindu - Markets'' ''v'' (Some 5),
         example_item ''The Hindu - Markets'' ''w'' (Some 4)] 2 (Some 120))
      = Some [(''Moneycontrol'', ''u''), (''The Hindu - Markets'', ''u''),
              (''The Hindu - Markets'', ''v'')]"
    by code_simp
  note t = old_items_bounded [OF h0 h, where feeds = FEEDS and glim = "Some 120"
             and f = "''The Hindu - Markets''"]
  show ?thesis
    by (rule conjI [OF h0 conjI [OF h conjI [OF t e]]])
qed

lemma distinct_links_card:
  "length (remdups (map link (filter (\<lambda>it. feed it = fn) items)))
     = card (key_of ` {c \<in> set (map (restamp now) items). feed c = fn})"
proof -
  have "{c \<in> set (map (restamp now) items). feed c = fn}
      = restamp now ` {c \<in> set items. feed c = fn}"
    by auto
  then have "key_of ` {c \<in> set (map (restamp now) items). feed c = fn}
      = (\<lambda>c. key_of (restamp now c)) ` {c \<in> set items. feed c = fn}"
    by (simp only: image_image)
  also have "\<dots> = (\<lambda>c. (fn, link c)) ` {c \<in> set items. feed c = fn}"
    by (rule image_cong) (auto simp: key_of_def)
  also have "\<dots> = Pair fn ` link ` {c \<in> set items. feed c = fn}"
    by (simp only: image_image)
  finally have "key_of ` {c \<in> set (map (restamp now) items). feed c = fn}
      = Pair fn ` link ` {c \<in> set items. feed c = fn}" .
  moreover have "card (Pair fn ` link ` {c \<in> set items. feed c = fn})
      = card (link ` {c \<in> set items. feed c = fn})"
    by (rule card_image) (simp add: inj_on_def)
  moreover have "link ` {c \<in> set items. feed c = fn}
      = set (map link (filter (\<lambda>it. feed it = fn) items))"
    by auto
  ultimately show ?thesis
    by (simp only: length_remdups_card_conv)
qed

lemma all_keys_present_count:
  assumes "\<forall>c\<in>set items. feed c = fn \<longrightarrow> key_of c \<in> set (map key_of L)"
  shows "int (card (key_of ` {c \<in> set items. feed c = fn})) \<le> count_feed fn L"
proof -
  let ?F = "filter (\<lambda>it. feed it = fn) L"
  have "key_of ` {c \<in> set items. feed c = fn} \<subseteq> key_of ` set ?F"
  proof
    fix k assume "k \<in> key_of ` {c \<in> set items. feed c = fn}"
    then obtain c where c: "c \<in> set items" "feed c = fn" "k = key_of c"
      by auto
    then obtain x where x: "x \<in> set L" "key_of x = key_of c"
      using assms by auto
    then have "feed x = fn"
      using c(2) by (simp add: key_of_def)
    then show "k \<in> key_of ` set ?F"
      using x c(3) by (auto simp: image_iff)
  qed
  then have "card (key_of ` {c \<in> set items. feed c = fn}) \<le> card (key_of ` set ?F)"
    by (intro card_mono) auto
  also have "\<dots> \<le> card (set ?F)"
    by (rule card_image_le) simp
  also have "\<dots> \<le> length ?F"
    by (rule card_length)
  finally show ?thesis
    by (simp add: count_feed_def)
qed

text \<open>
  Claim C2 as stated fails: a feed has two entries in the pool, both older than the window
  and both without a link; with a floor of two and no limit, one of them is returned.
\<close>

theorem floor_counterexample:
  "map_option (\<lambda>(pool, out).
       int (length (filter (\<lambda>it. feed it = ''The Hindu - Markets'') out))
         < min 2 (int (length (filter (\<lambda>it. feed it = ''The Hindu - Markets'')
              [example_item ''The Hindu - Markets'' [] (Some 1690000000000000),
               example_item ''The Hindu - Markets'' [] (Some 1680000000000000)]))))
     (filter_last_window FEEDS HOURS_WINDOW example_now
        [example_item ''The Hindu - Markets'' [] (Some 1690000000000000),
         example_item ''The Hindu - Markets'' [] (Some 1680000000000000)] 2 None)
   = Some True"
  by code_simp

text \<open>
  Claim C2, amended.  For every configured feed the list returned without truncation holds
  at least \<open>min(fallback_limit_per_feed, d)\<close> items of that feed, where \<open>d\<close> is the number of
  distinct links among the items of the feed in the pool, inside the window or not.  A
  limit that the result does not exceed returns the same list.  A feed without items in
  the pool has \<open>d = 0\<close>.
\<close>

theorem floor_guarantee:
  assumes "fn \<in> set (map fst feeds)" and "timestamps_representable now hours items"
  shows "\<exists>pool pre. filter_last_window feeds hours now items lim None = Some (pool, pre)
     \<and> (\<forall>g. int (length pre) \<le> g \<longrightarrow>
           filter_last_window feeds hours now items lim (Some g) = Some (pool, pre))
     \<and> min lim (int (length (remdups (map link (filter (\<lambda>it. feed it = fn) items)))))
         \<le> int (length (filter (\<lambda>it. feed it = fn) pre))"
proof -
  let ?pool = "map (restamp now) items"
  let ?W = "sort_key (\<lambda>it. - ist_instant it)
               (filter (in_window (cutoff_of now hours)) ?pool)"
  from sorted_selection_char [OF assms(2), of feeds lim] obtain added where a:
    "sorted_selection feeds hours now items lim
        = Some (?pool, sort_key (\<lambda>it. - ist_instant it) (?W @ added))"
    "\<forall>fn\<in>set (map fst feeds). lim \<le> count_feed fn (?W @ added)
       \<or> (\<forall>c\<in>set ?pool. feed c = fn \<longrightarrow> key_of c \<in> set (map key_of (?W @ added)))"
    by blast
  let ?L = "?W @ added"
  let ?S = "sort_key (\<lambda>it. - ist_instant it) ?L"
  let ?D = "int (length (remdups (map link (filter (\<lambda>it. feed it = fn) items))))"
  have 1: "filter_last_window feeds hours now items lim None = Some (?pool, ?S)"
    by (simp add: filter_last_window_eq a(1))
  have 2: "\<forall>g. int (length ?S) \<le> g \<longrightarrow>
           filter_last_window feeds hours now items lim (Some g) = Some (?pool, ?S)"
    by (simp add: filter_last_window_eq a(1) trim_not_exceeded)
  have "lim \<le> count_feed fn ?L
       \<or> (\<forall>c\<in>set ?pool. feed c = fn \<longrightarrow> key_of c \<in> set (map key_of ?L))"
    using a(2) assms(1) by blast
  then have "min lim ?D \<le> count_feed fn ?L"
  proof
    assume "lim \<le> count_feed fn ?L"
    then show ?thesis by simp
  next
    assume "\<forall>c\<in>set ?pool. feed c = fn \<longrightarrow> key_of c \<in> set (map key_of ?L)"
    then have "int (card (key_of ` {c \<in> set ?pool. feed c = fn})) \<le> count_feed fn ?L"
      by (rule all_keys_present_count)
    then have "?D \<le> count_feed fn ?L"
      by (simp only: distinct_links_card [of fn items now])
    then show ?thesis by simp
  qed
  moreover have "count_feed fn ?S = count_feed fn ?L"
    by (rule count_feed_sort_key)
  ultimately have "min lim ?D \<le> count_feed fn ?S"
    by (simp only:)
  then have 3: "min lim ?D \<le> int (length (filter (\<lambda>it. feed it = fn) ?S))"
    by (simp only: count_feed_def)
  show ?thesis
    using 1 2 3 by blast
qed

theorem floor_guarantee_witness:
  "''The Hindu - Markets'' \<in> set (map fst FEEDS)
   \<and> timestamps_representable example_now HOURS_WINDOW
         [example_item ''Moneycontrol'' ''u'' (Some 1699999999000000),
          example_item ''The Hindu - Markets'' ''v'' (Some 1680000000000000),
          example_item ''The Hindu - Markets'' ''v'' (Some 1690000000000000),
          example_item ''The Hindu - Markets'' ''w'' (Some 1670000000000000)]
   \<and> (\<exists>pool pre. filter_last_window FEEDS HOURS_WINDOW example_now
         [example_item ''Moneycontrol'' ''u'' (Some 1699999999000000),
          example_item ''The Hindu - Markets'' ''v'' (Some 1680000000000000),
          example_item ''The Hindu - Markets'' ''v'' (Some 1690000000000000),
          example_item ''The Hindu - Markets'' ''w'' (Some 1670000000000000)] 2 None
          = Some (pool, pre)
      \<and> int (length pre) \<le> 120
      \<and> filter_last_window FEEDS HOURS_WINDOW example_now
         [example_item ''Moneycontrol'' ''u'' (Some 1699999999000000),
          example_item ''The Hindu - Markets'' ''v'' (Some 1680000000000000),
          example_item ''The Hindu - Markets'' ''v'' (Some 1690000000000000),
          example_item ''The Hindu - Markets'' ''w'' (Some 1670000000000000)] 2 (Some 120)
          = Some (pool, pre)
      \<and> min 2 (int (length (remdups (map link (filter (\<lambda>it. feed it = ''The Hindu - Markets'')
         [example_item ''Moneycontrol'' ''u'' (Some 1699999999000000),
          example_item ''The Hindu - Markets'' ''v'' (Some 1680000000000000),
          example_item ''The Hindu - Markets'' ''v'' (Some 1690000000000000),
          example_item ''The Hindu - Markets'' ''w'' (Some 1670000000000000)])))))
         \<le> int (length (filter (\<lambda>it. feed it = ''The Hindu - Markets'') pre)))"
proof -
  let ?items = "[example_item ''Moneycontrol'' ''u'' (Some 1699999999000000),
          example_item ''The Hindu - Markets'' ''v'' (Some 1680000000000000),
          example_item ''The Hindu - Markets'' ''v'' (Some 1690000000000000),
          example_item ''The Hindu - Markets'' ''w'' (Some 1670000000000000)]"
  have h: "''The Hindu - Markets'' \<in> set (map fst FEEDS)"
    by (simp add: FEEDS_def)
  have h2: "timestamps_representable example_now HOURS_WINDOW ?items"
    by code_simp
  from floor_guarantee [OF h h2, where lim = 2] obtain pool pre where r:
    "filter_last_window FEEDS HOURS_WINDOW example_now ?items 2 None = Some (pool, pre)"
    "\<forall>g. int (length pre) \<le> g \<longrightarrow>
        filter_last_window FEEDS HOURS_WINDOW example_now ?items 2 (Some g) = Some (pool, pre)"
    "min 2 (int (length (remdups (map link (filter (\<lambda>it. feed it = ''The Hindu - Markets'') ?items)))))
       \<le> int (length (filter (\<lambda>it. feed it = ''The Hindu - Markets'') pre))"
    by blast
  have "map_option (length \<circ> snd)
          (filter_last_window FEEDS HOURS_WINDOW example_now ?items 2 None) = Some 3"
    by code_simp
  then have len: "int (length pre) \<le> 120"
    using r(1) by simp
  then have "filter_last_window FEEDS HOURS_WINDOW example_now ?items 2 (Some 120) = Some (pool, pre)"
    using r(2) by blast
  then have "\<exists>pool pre. filter_last_window FEEDS HOURS_WINDOW example_now ?items 2 None
          = Some (pool, pre)
      \<and> int (length pre) \<le> 120
      \<and> filter_last_window FEEDS HOURS_WINDOW example_now ?items 2 (Some 120) = Some (pool, pre)
      \<and> min 2 (int (length (remdups (map link (filter (\<lambda>it. feed it = ''The Hindu - Markets'')
           ?items)))))
         \<le> int (length (filter (\<lambda>it. feed it = ''The Hindu - Markets'') pre))"
    using r(1) r(3) len by blast
  then show ?thesis
    by (rule conjI [OF h conjI [OF h2]])
qed

section \<open>Properties of the fetching layer\<close>

lemma build_item_feed: "build_item env name entry = Inr it \<Longrightarrow> feed it = name"
  unfolding build_item_def
  by (cases "entry_dt_utc env entry"; cases "extract_image env entry";
      cases "get_publisher_name env name entry") auto

lemma build_items_feed:
  "build_items env name entries acc = Inr its \<Longrightarrow> \<forall>x\<in>set acc. feed x = name
     \<Longrightarrow> \<forall>x\<in>set its. feed x = name"
proof (induction entries arbitrary: acc)
  case Nil
  then show ?case by simp
next
  case (Cons entry entries)
  obtain it where it: "build_item env name entry = Inr it"
    "build_items env name entries (acc @ [it]) = Inr its"
    using Cons.prems(1) by (cases "build_item env name entry") auto
  have "\<forall>x\<in>set (acc @ [it]). feed x = name"
    using Cons.prems(2) build_item_feed [OF it(1)] by simp
  from Cons.IH [OF it(2) this] show ?case .
qed

lemma fetch_feed_feed:
  assumes "fetch_feed env name url = Inr its"
  shows "\<forall>x\<in>set its. feed x = name"
proof (cases "http_fetch env url")
  case (Inl e)
  then show ?thesis using assms by (simp add: fetch_feed_def)
next
  case (Inr resp)
  then have "parse_items env name resp = Inr its"
    using assms by (simp add: fetch_feed_def)
  then obtain entries where "build_items env name entries [] = Inr its"
    by (auto simp: parse_items_def split: sum.splits)
  then show ?thesis by (rule build_items_feed) simp
qed

lemma fetch_all_loop_acc:
  "fetch_all_loop env feeds acc = acc @ fetch_all_loop env feeds []"
proof (induction feeds arbitrary: acc)
  case Nil
  then show ?case by simp
next
  case (Cons p feeds)
  obtain n u where p: "p = (n, u)" by (cases p)
  show ?case
  proof (cases "fetch_feed env n u")
    case (Inl e)
    then show ?thesis using Cons.IH [of acc] by (simp add: p)
  next
    case (Inr its)
    then show ?thesis
      using Cons.IH [of "acc @ its"] Cons.IH [of its] by (simp add: p)
  qed
qed

lemma fetch_all_loop_other_feeds:
  "name \<notin> fst ` set feeds \<Longrightarrow> filter (\<lambda>it. feed it = name) (fetch_all_loop env feeds []) = []"
proof (induction feeds)
  case Nil
  then show ?case by simp
next
  case (Cons p feeds)
  obtain n u where p: "p = (n, u)" by (cases p)
  have ih: "filter (\<lambda>it. feed it = name) (fetch_all_loop env feeds []) = []"
    using Cons by simp
  have ne: "n \<noteq> name" using Cons.prems p by auto
  show ?case
  proof (cases "fetch_feed env n u")
    case (Inl e)
    then show ?thesis using ih by (simp add: p)
  next
    case (Inr its)
    have "\<forall>x\<in>set its. feed x = n"
      using Inr by (rule fetch_feed_feed)
    then have "filter (\<lambda>it. feed it = name) its = []"
      using ne by (auto simp: filter_empty_conv)
    moreover have "fetch_all_loop env (p # feeds) [] = its @ fetch_all_loop env feeds []"
      using Inr fetch_all_loop_acc [of env feeds its] by (simp add: p)
    ultimately show ?thesis using ih by simp
  qed
qed

lemma fetch_all_loop_skip:
  assumes "fetch_feed env name url = Inr [] \<or> fetch_feed env name url = Inl e"
  shows "distinct (map fst feeds) \<Longrightarrow> (name, url) \<in> set feeds \<Longrightarrow>
         fetch_all_loop env feeds acc
           = fetch_all_loop env (filter (\<lambda>(n, u). n \<noteq> name) feeds) acc"
proof (induction feeds arbitrary: acc)
  case Nil
  then show ?case by simp
next
  case (Cons p feeds)
  obtain n u where p: "p = (n, u)" by (cases p)
  show ?case
  proof (cases "n = name")
    case True
    have notin: "name \<notin> fst ` set feeds"
      using Cons.prems(1) True p by simp
    then have "u = url"
      using Cons.prems(2) True p by (auto simp: image_iff)
    then have "fetch_all_loop env (p # feeds) acc = fetch_all_loop env feeds acc"
      using assms True p by auto
    moreover have "filter (\<lambda>(n, u). n \<noteq> name) feeds = feeds"
      using notin by (auto simp: filter_id_conv image_iff)
    ultimately show ?thesis using True p by simp
  next
    case False
    then have "(name, url) \<in> set feeds" "distinct (map fst feeds)"
      using Cons.prems p by auto
    then have ih: "\<And>acc. fetch_all_loop env feeds acc
           = fetch_all_loop env (filter (\<lambda>(n, u). n \<noteq> name) feeds) acc"
      using Cons.IH by blast
    show ?thesis
      using False ih by (simp add: p split: sum.split)
  qed
qed

text \<open>
  Claim C9.  A configured feed whose HTTP request fails, or whose response fails to parse
  into items, contributes no item to the pool, and the pool is the one the other feeds
  give: \<open>fetch_feed\<close> returns the empty list for the HTTP failure, and \<open>fetch_all\<close>
  catches what \<open>fetch_feed\<close> raises for the other.
\<close>

theorem failed_feed_contributes_nothing:
  assumes "(name, url) \<in> set feeds" and "distinct (map fst feeds)"
    and "http_fetch env url = Inl e
         \<or> (\<exists>resp. http_fetch env url = Inr resp \<and> parse_items env name resp = Inl e)"
  shows "fetch_feed env name url = (if http_fetch env url = Inl e then Inr [] else Inl e)
     \<and> filter (\<lambda>it. feed it = name) (fetch_all env feeds) = []
     \<and> fetch_all env feeds = fetch_all env (filter (\<lambda>(n, u). n \<noteq> name) feeds)"
proof -
  have ff: "fetch_feed env name url = (if http_fetch env url = Inl e then Inr [] else Inl e)"
    using assms(3) by (auto simp: fetch_feed_def)
  then have "fetch_feed env name url = Inr [] \<or> fetch_feed env name url = Inl e"
    by (simp split: if_splits)
  then have eq: "fetch_all env feeds = fetch_all env (filter (\<lambda>(n, u). n \<noteq> name) feeds)"
    unfolding fetch_all_def using assms(2) assms(1) by (rule fetch_all_loop_skip)
  have "name \<notin> fst ` set (filter (\<lambda>(n, u). n \<noteq> name) feeds)"
    by auto
  then have "filter (\<lambda>it. feed it = name)
               (fetch_all env (filter (\<lambda>(n, u). n \<noteq> name) feeds)) = []"
    unfolding fetch_all_def by (rule fetch_all_loop_other_feeds)
  then show ?thesis using ff eq by simp
qed

theorem failed_feed_contributes_nothing_witness:
  "(''Moneycontrol'', ''http://www.moneycontrol.com/rss/latestnews.xml'') \<in> set FEEDS
   \<and> distinct (map fst FEEDS)
   \<and> http_fetch example_env ''http://www.moneycontrol.com/rss/latestnews.xml''
        = Inl (Exception ''ConnectTimeout'')
   \<and> fetch_feed example_env ''Moneycontrol'' ''http://www.moneycontrol.com/rss/latestnews.xml''
        = Inr []
   \<and> filter (\<lambda>it. feed it = ''Moneycontrol'') (fetch_all example_env FEEDS) = []
   \<and> fetch_all example_env FEEDS
        = fetch_all example_env (filter (\<lambda>(n, u). n \<noteq> ''Moneycontrol'') FEEDS)"
proof -
  let ?url = "''http://www.moneycontrol.com/rss/latestnews.xml''"
  have h1: "(''Moneycontrol'', ?url) \<in> set FEEDS"
    by (simp add: FEEDS_def)
  have h2: "distinct (map fst FEEDS)"
    by (simp add: FEEDS_def)
  have h3: "http_fetch example_env ?url = Inl (Exception ''ConnectTimeout'')"
    by (simp add: http_fetch_def example_env_def)
  then have h3': "http_fetch example_env ?url = Inl (Exception ''ConnectTimeout'')
         \<or> (\<exists>resp. http_fetch example_env ?url = Inr resp
               \<and> parse_items example_env ''Moneycontrol'' resp = Inl (Exception ''ConnectTimeout''))"
    by (rule disjI1)
  have r: "fetch_feed example_env ''Moneycontrol'' ?url
        = (if http_fetch example_env ?url = Inl (Exception ''ConnectTimeout'')
           then Inr [] else Inl (Exception ''ConnectTimeout''))
     \<and> filter (\<lambda>it. feed it = ''Moneycontrol'') (fetch_all example_env FEEDS) = []
     \<and> fetch_all example_env FEEDS
          = fetch_all example_env (filter (\<lambda>(n, u). n \<noteq> ''Moneycontrol'') FEEDS)"
    by (rule failed_feed_contributes_nothing [OF h1 h2 h3'])
  have r1: "fetch_feed example_env ''Moneycontrol'' ?url = Inr []"
    using conjunct1 [OF r] h3 by simp
  show ?thesis
    by (intro conjI h1 h2 h3 r1 conjunct1 [OF conjunct2 [OF r]] conjunct2 [OF conjunct2 [OF r]])
qed

end
